theory Spec2Isabelle
  imports Main "HOL-Library.Word" "HOL-Library.Sublist"
begin

unbundle bit_operations_syntax

section \<open>Strings and bytes\<close>

text \<open>
  A Go \<^verbatim>\<open>string\<close> is a sequence of bytes; it is modelled as a \<^typ>\<open>string\<close>
  (a list of 8-bit characters). The conversion \<^verbatim>\<open>[]byte(s)\<close> maps every character to
  its byte value.
\<close>

type_synonym byte = "8 word"

type_synonym uint32 = "32 word"

type_synonym uint64 = "64 word"

definition bytes_of :: "string \<Rightarrow> byte list" where
  "bytes_of str = map of_char str"

section \<open>The Go standard library: \<^verbatim>\<open>crypto/md5\<close>\<close>

text \<open>
  The plugin imports \<^verbatim>\<open>crypto/md5\<close>. The model follows the library's \<^verbatim>\<open>digest\<close> type:
  four chaining words, a buffer of at most one pending block and the running length
  (a \<^verbatim>\<open>uint64\<close>, which wraps around).
\<close>

type_synonym md5_state = "uint32 \<times> uint32 \<times> uint32 \<times> uint32"

definition BlockSize :: nat where
  "BlockSize = 64"

definition init_state :: md5_state where
  "init_state = (0x67452301, 0xEFCDAB89, 0x98BADCFE, 0x10325476)"

text \<open>The additive constants of the 64 steps and the rotation amounts.\<close>

definition sine_table :: "uint32 list" where
  "sine_table =
    [0xd76aa478, 0xe8c7b756, 0x242070db, 0xc1bdceee, 0xf57c0faf, 0x4787c62a, 0xa8304613, 0xfd469501,
     0x698098d8, 0x8b44f7af, 0xffff5bb1, 0x895cd7be, 0x6b901122, 0xfd987193, 0xa679438e, 0x49b40821,
     0xf61e2562, 0xc040b340, 0x265e5a51, 0xe9b6c7aa, 0xd62f105d, 0x02441453, 0xd8a1e681, 0xe7d3fbc8,
     0x21e1cde6, 0xc33707d6, 0xf4d50d87, 0x455a14ed, 0xa9e3e905, 0xfcefa3f8, 0x676f02d9, 0x8d2a4c8a,
     0xfffa3942, 0x8771f681, 0x6d9d6122, 0xfde5380c, 0xa4beea44, 0x4bdecfa9, 0xf6bb4b60, 0xbebfbc70,
     0x289b7ec6, 0xeaa127fa, 0xd4ef3085, 0x04881d05, 0xd9d4d039, 0xe6db99e5, 0x1fa27cf8, 0xc4ac5665,
     0xf4292244, 0x432aff97, 0xab9423a7, 0xfc93a039, 0x655b59c3, 0x8f0ccc92, 0xffeff47d, 0x85845dd1,
     0x6fa87e4f, 0xfe2ce6e0, 0xa3014314, 0x4e0811a1, 0xf7537e82, 0xbd3af235, 0x2ad7d2bb, 0xeb86d391]"

definition shift_table :: "nat list" where
  "shift_table =
    [7, 12, 17, 22, 7, 12, 17, 22, 7, 12, 17, 22, 7, 12, 17, 22,
     5, 9, 14, 20, 5, 9, 14, 20, 5, 9, 14, 20, 5, 9, 14, 20,
     4, 11, 16, 23, 4, 11, 16, 23, 4, 11, 16, 23, 4, 11, 16, 23,
     6, 10, 15, 21, 6, 10, 15, 21, 6, 10, 15, 21, 6, 10, 15, 21]"

definition RotateLeft32 :: "uint32 \<Rightarrow> nat \<Rightarrow> uint32" where
  "RotateLeft32 w k = push_bit k w OR drop_bit (32 - k) w"

text \<open>\<^verbatim>\<open>binary.LittleEndian.Uint32\<close> and \<^verbatim>\<open>PutUint32\<close>, \<^verbatim>\<open>PutUint64\<close>.\<close>

definition Uint32 :: "byte list \<Rightarrow> uint32" where
  "Uint32 q = ucast (q ! 0) OR push_bit 8 (ucast (q ! 1)) OR push_bit 16 (ucast (q ! 2))
     OR push_bit 24 (ucast (q ! 3))"

definition PutUint32 :: "uint32 \<Rightarrow> byte list" where
  "PutUint32 v = [ucast v, ucast (drop_bit 8 v), ucast (drop_bit 16 v), ucast (drop_bit 24 v)]"

definition PutUint64 :: "uint64 \<Rightarrow> byte list" where
  "PutUint64 v = map (\<lambda>i. ucast (drop_bit (8 * i) v)) [0..<8]"

text \<open>
  One step of the compression function on the sixteen message words \<open>ws\<close>. The four
  auxiliary functions are written as \<^verbatim>\<open>blockGeneric\<close> writes them.
\<close>

definition md5_step :: "uint32 list \<Rightarrow> md5_state \<Rightarrow> nat \<Rightarrow> md5_state" where
  "md5_step ws st i = (case st of (a, b, c, d) \<Rightarrow>
     let (f, g) =
       (if i < 16 then (((c XOR d) AND b) XOR d, i)
        else if i < 32 then (((b XOR c) AND d) XOR c, (5 * i + 1) mod 16)
        else if i < 48 then (b XOR c XOR d, (3 * i + 5) mod 16)
        else (c XOR (b OR NOT d), (7 * i) mod 16))
     in (d, b + RotateLeft32 (f + a + ws ! g + sine_table ! i) (shift_table ! i), b, c))"

definition block_words :: "byte list \<Rightarrow> uint32 list" where
  "block_words q = map (\<lambda>j. Uint32 (drop (4 * j) q)) [0..<16]"

definition compress :: "md5_state \<Rightarrow> byte list \<Rightarrow> md5_state" where
  "compress st q = (case st of (aa, bb, cc, dd) \<Rightarrow>
     case foldl (md5_step (block_words q)) st [0..<64] of (a, b, c, d) \<Rightarrow>
       (a + aa, b + bb, c + cc, d + dd))"

text \<open>
  \<^verbatim>\<open>blockGeneric(dig, p)\<close>: the loop \<^verbatim>\<open>for i := 0; i <= len(p)-BlockSize; i += BlockSize\<close>
  consumes every complete block of \<open>p\<close> and ignores an incomplete tail.
\<close>

function blockGeneric :: "md5_state \<Rightarrow> byte list \<Rightarrow> md5_state" where
  "blockGeneric st p =
     (if BlockSize \<le> length p then blockGeneric (compress st (take BlockSize p)) (drop BlockSize p)
      else st)"
  by pat_completeness auto
termination
  by (relation "measure (\<lambda>(st, p). length p)") (auto simp: BlockSize_def)

declare blockGeneric.simps [simp del]

record digest =
  digest_s :: md5_state
  digest_x :: "byte list"
  digest_len :: uint64

definition md5_New :: digest where
  "md5_New = \<lparr>digest_s = init_state, digest_x = [], digest_len = 0\<rparr>"

text \<open>
  \<^verbatim>\<open>(*digest).Write\<close>. The field \<open>digest_x\<close> holds \<^verbatim>\<open>d.x[:d.nx]\<close>, so \<^verbatim>\<open>d.nx\<close> is its
  length. The three stages are those of the library: fill and flush the pending block,
  hash the complete blocks of the input directly, keep the rest.
\<close>

definition Write :: "digest \<Rightarrow> byte list \<Rightarrow> digest" where
  "Write d p =
    (let len' = digest_len d + of_nat (length p);
         (s1, x1, p1) =
           (if 0 < length (digest_x d) then
              let n = min (BlockSize - length (digest_x d)) (length p);
                  x' = digest_x d @ take n p
              in if length x' = BlockSize then (blockGeneric (digest_s d) x', [], drop n p)
                 else (digest_s d, x', drop n p)
            else (digest_s d, digest_x d, p));
         (s2, p2) =
           (if BlockSize \<le> length p1 then
              let n = length p1 - length p1 mod BlockSize
              in (blockGeneric s1 (take n p1), drop n p1)
            else (s1, p1));
         x2 = (if 0 < length p2 then p2 else x1)
     in \<lparr>digest_s = s2, digest_x = x2, digest_len = len'\<rparr>)"

text \<open>
  \<^verbatim>\<open>checkSum\<close>: the end marker, \<^verbatim>\<open>pad := (55 - d.len) % 64\<close> zero bytes (computed on
  \<^verbatim>\<open>uint64\<close>) and the length in bits \<^verbatim>\<open>d.len << 3\<close> are written; the library then panics
  if a partial block is left, and otherwise returns the four words in little-endian order.
\<close>

definition checkSum_tail :: "digest \<Rightarrow> byte list" where
  "checkSum_tail d =
    (let pad = unat ((55 - digest_len d) mod 64)
     in 0x80 # replicate pad 0 @ PutUint64 (push_bit 3 (digest_len d)))"

definition checkSum_panics :: "digest \<Rightarrow> bool" where
  "checkSum_panics d = (length (digest_x (Write d (checkSum_tail d))) \<noteq> 0)"

definition checkSum :: "digest \<Rightarrow> byte list" where
  "checkSum d = (case digest_s (Write d (checkSum_tail d)) of (s0, s1, s2, s3) \<Rightarrow>
     PutUint32 s0 @ PutUint32 s1 @ PutUint32 s2 @ PutUint32 s3)"

definition Sum :: "digest \<Rightarrow> byte list \<Rightarrow> byte list" where
  "Sum d b = b @ checkSum d"

text \<open>\<^verbatim>\<open>io.WriteString(h, s)\<close> on a hash writes the bytes of \<open>s\<close>.\<close>

definition io_WriteString :: "digest \<Rightarrow> string \<Rightarrow> digest" where
  "io_WriteString h str = Write h (bytes_of str)"

text \<open>\<^verbatim>\<open>fmt.Sprintf("%x", b)\<close> on a byte slice: two lower-case digits per byte.\<close>

definition ldigits :: string where
  "ldigits = ''0123456789abcdef''"

definition Sprintf_x :: "byte list \<Rightarrow> string" where
  "Sprintf_x b = concat (map (\<lambda>c. [ldigits ! (unat c div 16), ldigits ! (unat c mod 16)]) b)"

text \<open>
  The MD5 message digest as RFC 1321 defines it, on the whole message at once: the
  message is padded to a multiple of 64 bytes and the blocks are compressed in order.
\<close>

definition md5_padding :: "nat \<Rightarrow> byte list" where
  "md5_padding n = 0x80 # replicate ((119 - n mod 64) mod 64) 0 @ PutUint64 (of_nat (n * 8))"

definition md5 :: "byte list \<Rightarrow> byte list" where
  "md5 m = (case foldl compress init_state
                   (map (\<lambda>k. take 64 (drop (64 * k) (m @ md5_padding (length m))))
                        [0..<length (m @ md5_padding (length m)) div 64]) of
     (a, b, c, d) \<Rightarrow> PutUint32 a @ PutUint32 b @ PutUint32 c @ PutUint32 d)"

section \<open>The plugin: cache key\<close>

text \<open>
  \<^verbatim>\<open>func hash(mount, branch string) string\<close>: both parts are written to a fresh MD5 hash
  in order, and the sum is rendered in hexadecimal.
\<close>

definition hash :: "string \<Rightarrow> string \<Rightarrow> string" where
  "hash mount branch =
    (let parts = [mount, branch];
         h = foldl io_WriteString md5_New parts
     in Sprintf_x (Sum h []))"

section \<open>The Go standard library: \<^verbatim>\<open>strings\<close> and \<^verbatim>\<open>path/filepath\<close>\<close>

text \<open>
  The plugin runs in a Linux container, so \<^verbatim>\<open>path/filepath\<close> is the Unix variant: the
  separator is the slash and there are no volume names.
\<close>

definition strings_HasPrefix :: "string \<Rightarrow> string \<Rightarrow> bool" where
  "strings_HasPrefix str pre = (length pre \<le> length str \<and> take (length pre) str = pre)"

fun strings_Join :: "string list \<Rightarrow> string \<Rightarrow> string" where
  "strings_Join [] sep = []"
| "strings_Join [e] sep = e"
| "strings_Join (e # es) sep = e @ sep @ strings_Join es sep"

definition Separator :: char where
  "Separator = CHR ''/''"

definition IsPathSeparator :: "char \<Rightarrow> bool" where
  "IsPathSeparator c = (c = Separator)"

text \<open>
  \<^verbatim>\<open>filepath.Clean\<close> reads the path at index \<open>r\<close> and writes a buffer \<open>out\<close>; \<open>dotdot\<close>
  is the index where backtracking must stop. The model keeps the unread part of the path
  instead of \<open>r\<close>. The test \<^verbatim>\<open>r+1 == n || os.IsPathSeparator(path[r+1])\<close> asks whether
  the text after the current byte is at its end or at a separator.
\<close>

definition ends_element :: "string \<Rightarrow> bool" where
  "ends_element t = (case t of [] \<Rightarrow> True | c # _ \<Rightarrow> IsPathSeparator c)"

text \<open>
  The backtracking of a \<^verbatim>\<open>..\<close> element, after the first \<^verbatim>\<open>out.w--\<close>:
  \<^verbatim>\<open>for out.w > dotdot && !os.IsPathSeparator(out.index(out.w)) { out.w-- }\<close>.
\<close>

function backtrack :: "string \<Rightarrow> nat \<Rightarrow> nat \<Rightarrow> nat" where
  "backtrack buf dotdot w =
     (if dotdot < w \<and> \<not> IsPathSeparator (buf ! w) then backtrack buf dotdot (w - 1) else w)"
  by pat_completeness auto
termination
  by (relation "measure (\<lambda>(buf, dotdot, w). w)") auto

declare backtrack.simps [simp del]

function Clean_loop :: "bool \<Rightarrow> string \<Rightarrow> nat \<Rightarrow> string \<Rightarrow> string \<times> nat" where
  "Clean_loop rooted out dotdot [] = (out, dotdot)"
| "Clean_loop rooted out dotdot (c # t) =
     (if IsPathSeparator c then Clean_loop rooted out dotdot t
      else if c = CHR ''.'' \<and> ends_element t then Clean_loop rooted out dotdot t
      else if c = CHR ''.'' \<and> (case t of [] \<Rightarrow> False | c1 # t2 \<Rightarrow> c1 = CHR ''.'' \<and> ends_element t2) then
        (if dotdot < length out then
           Clean_loop rooted (take (backtrack out dotdot (length out - 1)) out) dotdot (tl t)
         else if \<not> rooted then
           (let out' = (if 0 < length out then out @ [Separator] else out) @ ''..''
            in Clean_loop rooted out' (length out') (tl t))
         else Clean_loop rooted out dotdot (tl t))
      else
        (let out' = (if rooted \<and> length out \<noteq> 1 \<or> \<not> rooted \<and> length out \<noteq> 0
                     then out @ [Separator] else out)
         in Clean_loop rooted (out' @ takeWhile (\<lambda>x. \<not> IsPathSeparator x) (c # t)) dotdot
              (dropWhile (\<lambda>x. \<not> IsPathSeparator x) (c # t))))"
  by pat_completeness auto
termination
  by (relation "measure (\<lambda>(rooted, out, dotdot, path). length path)")
     (simp_all add: le_imp_less_Suc length_dropWhile_le)

declare Clean_loop.simps [simp del]

definition Clean :: "string \<Rightarrow> string" where
  "Clean path =
    (if path = [] then ''.''
     else
       let rooted = IsPathSeparator (hd path);
           (out, dotdot) =
             (if rooted then Clean_loop rooted [Separator] 1 (tl path)
              else Clean_loop rooted [] 0 path)
       in if length out = 0 then ''.'' else out)"

text \<open>
  \<^verbatim>\<open>filepath.Join\<close>: the elements from the first non-empty one on are joined with the
  separator and cleaned; if all are empty the result is the empty string.
\<close>

fun filepath_Join :: "string list \<Rightarrow> string" where
  "filepath_Join [] = []"
| "filepath_Join (e # es) =
     (if e \<noteq> [] then Clean (strings_Join (e # es) [Separator]) else filepath_Join es)"

declare filepath_Join.simps [simp del]

section \<open>The plugin: configuration, errors and collaborators\<close>

record Plugin =
  ACL :: string
  Branch :: string
  Bucket :: string
  Default :: string
  Encryption :: string
  Endpoint :: string
  Key :: string
  Mount :: "string list"
  PathStyle :: bool
  Rebuild :: bool
  Region :: string
  Repo :: string
  Restore :: bool
  Secret :: string

text \<open>
  The part of \<^verbatim>\<open>aws.Config\<close> that \<^verbatim>\<open>Exec\<close> fills in. Its fields are pointers; \<open>None\<close>
  is the nil pointer, which leaves the choice to the SDK (for the credentials: the default
  provider chain of environment, shared file and instance role).
\<close>

datatype Credentials = NewStaticCredentials string string string

record aws_Config =
  Config_Region :: "string option"
  Config_Endpoint :: "string option"
  Config_DisableSSL :: "bool option"
  Config_S3ForcePathStyle :: "bool option"
  Config_Credentials :: "Credentials option"

text \<open>
  Modelled from the spec: the kinds of failure that the collaborators report (section 7,
  error taxonomy). The packages \<^verbatim>\<open>cache\<close> and \<^verbatim>\<open>provider\<close> that produce them are not
  among the sources.
\<close>

datatype kind =
  UploadFailure | DownloadFailure | ArchiveFailure | ExtractFailure | TransportError | NotFound

text \<open>
  A Go \<^verbatim>\<open>error\<close>: a failure of a collaborator, or an error wrapped with a message by
  \<^verbatim>\<open>errors.Wrap\<close>. A nil error is \<open>None\<close>; \<^verbatim>\<open>errors.Wrap(nil, msg)\<close> is nil.
\<close>

datatype error = Failure kind | Wrap error string

fun errors_Wrap :: "error option \<Rightarrow> string \<Rightarrow> error option" where
  "errors_Wrap None message = None"
| "errors_Wrap (Some err) message = Some (Wrap err message)"

text \<open>
  What a run does to the outside is recorded in order: the lines it logs and the calls it
  makes to the provider package and the cache package. The elapsed time that the summary
  lines print is wall-clock time and is left out.
\<close>

datatype logline =
  Archiving string string
  | Restoring string string
  | Cache_built
  | Cache_restored

datatype event =
  Log logline
  | NewS3_called string string string aws_Config
  | Upload_called string string
  | Download_called string string

text \<open>
  The functions \<^verbatim>\<open>provider.NewS3\<close>, \<^verbatim>\<open>cache.Upload\<close> and \<^verbatim>\<open>cache.Download\<close> belong to
  packages that are not among the sources; they are parameters. A provider handle has
  type \<open>'c\<close>. The local file system and the remote store together are a world of type
  \<open>'w\<close>: an upload or a download returns an error or nil, and the world after the call.
\<close>

record ('c, 'w) env =
  provider_NewS3 :: "string \<Rightarrow> string \<Rightarrow> string \<Rightarrow> aws_Config \<Rightarrow> 'c"
  cache_Upload :: "'c \<Rightarrow> string \<Rightarrow> string \<Rightarrow> 'w \<Rightarrow> error option \<times> 'w"
  cache_Download :: "'c \<Rightarrow> string \<Rightarrow> string \<Rightarrow> 'w \<Rightarrow> error option \<times> 'w"

record 'w state =
  world :: 'w
  trace :: "event list"

definition record_event :: "event \<Rightarrow> 'w state \<Rightarrow> 'w state" where
  "record_event ev s = s\<lparr>trace := trace s @ [ev]\<rparr>"

definition log_Printf :: "logline \<Rightarrow> 'w state \<Rightarrow> 'w state" where
  "log_Printf l s = record_event (Log l) s"

definition call_Upload ::
  "('c, 'w) env \<Rightarrow> 'c \<Rightarrow> string \<Rightarrow> string \<Rightarrow> 'w state \<Rightarrow> error option \<times> 'w state" where
  "call_Upload E c src dst s =
    (case cache_Upload E c src dst (world s) of
       (err, w) \<Rightarrow> (err, record_event (Upload_called src dst) (s\<lparr>world := w\<rparr>)))"

definition call_Download ::
  "('c, 'w) env \<Rightarrow> 'c \<Rightarrow> string \<Rightarrow> string \<Rightarrow> 'w state \<Rightarrow> error option \<times> 'w state" where
  "call_Download E c src dst s =
    (case cache_Download E c src dst (world s) of
       (err, w) \<Rightarrow> (err, record_event (Download_called src dst) (s\<lparr>world := w\<rparr>)))"

section \<open>The plugin: rebuild, restore and the entry point\<close>

text \<open>
  \<^verbatim>\<open>processRebuild\<close>: the loop \<^verbatim>\<open>for _, mount := range p.Mount\<close> returns at the first
  upload that fails; the summary line is logged only if the loop runs to its end.
\<close>

fun rebuild_loop ::
  "('c, 'w) env \<Rightarrow> Plugin \<Rightarrow> 'c \<Rightarrow> string list \<Rightarrow> 'w state \<Rightarrow> error option \<times> 'w state" where
  "rebuild_loop E p c [] s = (None, s)"
| "rebuild_loop E p c (mount # mounts) s =
    (let cacheKey = hash mount (Branch p);
         path = filepath_Join [Repo p, cacheKey];
         s1 = log_Printf (Archiving mount path) s;
         (err, s2) = call_Upload E c mount path s1
     in case err of
          Some e \<Rightarrow> (errors_Wrap (Some e) ''could not upload'', s2)
        | None \<Rightarrow> rebuild_loop E p c mounts s2)"

definition processRebuild ::
  "('c, 'w) env \<Rightarrow> Plugin \<Rightarrow> 'c \<Rightarrow> 'w state \<Rightarrow> error option \<times> 'w state" where
  "processRebuild E p c s =
    (case rebuild_loop E p c (Mount p) s of
       (Some e, s') \<Rightarrow> (Some e, s')
     | (None, s') \<Rightarrow> (None, log_Printf Cache_built s'))"

fun restore_loop ::
  "('c, 'w) env \<Rightarrow> Plugin \<Rightarrow> 'c \<Rightarrow> string list \<Rightarrow> 'w state \<Rightarrow> error option \<times> 'w state" where
  "restore_loop E p c [] s = (None, s)"
| "restore_loop E p c (mount # mounts) s =
    (let cacheKey = hash mount (Branch p);
         path = filepath_Join [Repo p, cacheKey];
         s1 = log_Printf (Restoring mount path) s;
         (err, s2) = call_Download E c path mount s1
     in case err of
          Some e \<Rightarrow> (errors_Wrap (Some e) ''could not download'', s2)
        | None \<Rightarrow> restore_loop E p c mounts s2)"

definition processRestore ::
  "('c, 'w) env \<Rightarrow> Plugin \<Rightarrow> 'c \<Rightarrow> 'w state \<Rightarrow> error option \<times> 'w state" where
  "processRestore E p c s =
    (case restore_loop E p c (Mount p) s of
       (Some e, s') \<Rightarrow> (Some e, s')
     | (None, s') \<Rightarrow> (None, log_Printf Cache_restored s'))"

text \<open>
  The configuration that \<^verbatim>\<open>Exec\<close> builds before it constructs the provider: the literal
  \<^verbatim>\<open>&aws.Config{...}\<close> and the conditional assignment of static credentials.
\<close>

definition Exec_conf :: "Plugin \<Rightarrow> aws_Config" where
  "Exec_conf p =
    (let conf = \<lparr>Config_Region = Some (Region p),
                 Config_Endpoint = Some (Endpoint p),
                 Config_DisableSSL = Some (\<not> strings_HasPrefix (Endpoint p) ''https://''),
                 Config_S3ForcePathStyle = Some (PathStyle p),
                 Config_Credentials = None\<rparr>
     in if Key p \<noteq> [] \<and> Secret p \<noteq> []
        then conf\<lparr>Config_Credentials := Some (NewStaticCredentials (Key p) (Secret p) [])\<rparr>
        else conf)"

definition Exec :: "('c, 'w) env \<Rightarrow> Plugin \<Rightarrow> 'w state \<Rightarrow> error option \<times> 'w state" where
  "Exec E p s =
    (let conf = Exec_conf p;
         cacheProvider = provider_NewS3 E (Bucket p) (ACL p) (Encryption p) conf;
         s0 = record_event (NewS3_called (Bucket p) (ACL p) (Encryption p) conf) s;
         (err1, s1) = (if Rebuild p then processRebuild E p cacheProvider s0 else (None, s0))
     in case err1 of
          Some e \<Rightarrow> (errors_Wrap (Some e) ''process rebuild failed'', s1)
        | None \<Rightarrow>
            (let (err2, s2) = (if Restore p then processRestore E p cacheProvider s1 else (None, s1))
             in case err2 of
                  Some e \<Rightarrow> (errors_Wrap (Some e) ''process restore failed'', s2)
                | None \<Rightarrow> (None, s2)))"

section \<open>Notions used to state the properties\<close>

text \<open>The bytes of \<open>p\<close> that follow its last complete block.\<close>

definition rest :: "byte list \<Rightarrow> byte list" where
  "rest p = drop (length p - length p mod BlockSize) p"

text \<open>The digest value after the bytes \<open>m\<close> have been written to a fresh hash.\<close>

definition absorbed :: "byte list \<Rightarrow> digest" where
  "absorbed m = \<lparr>digest_s = blockGeneric init_state m, digest_x = rest m,
                  digest_len = of_nat (length m)\<rparr>"

text \<open>The third case of the loop of \<^verbatim>\<open>Clean\<close>: a \<^verbatim>\<open>..\<close> element starts here.\<close>

definition is_dotdot :: "char \<Rightarrow> string \<Rightarrow> bool" where
  "is_dotdot c t =
    (c = CHR ''.'' \<and> (case t of [] \<Rightarrow> False | c1 # t2 \<Rightarrow> c1 = CHR ''.'' \<and> ends_element t2))"

text \<open>A non-empty path element without separator or dot, such as a hexadecimal key.\<close>

definition plain_name :: "string \<Rightarrow> bool" where
  "plain_name key = (key \<noteq> [] \<and> list_all (\<lambda>c. c \<noteq> Separator \<and> c \<noteq> CHR ''.'') key)"

text \<open>What \<^verbatim>\<open>filepath.Join\<close> puts in front of a plain name that is joined to \<open>dir\<close>.\<close>

definition join_dir :: "string \<Rightarrow> string" where
  "join_dir dir =
    (if dir = [] then []
     else
       let rooted = IsPathSeparator (hd dir);
           (out, dotdot) =
             (if rooted then Clean_loop rooted [Separator] 1 (tl dir)
              else Clean_loop rooted [] 0 dir)
       in if rooted \<and> length out \<noteq> 1 \<or> \<not> rooted \<and> length out \<noteq> 0
          then out @ [Separator] else out)"

text \<open>The remote path of a mount, and the events of one successful or failing loop round.\<close>

definition remote_path :: "Plugin \<Rightarrow> string \<Rightarrow> string" where
  "remote_path p mount = filepath_Join [Repo p, hash mount (Branch p)]"

definition rebuild_events :: "Plugin \<Rightarrow> string \<Rightarrow> event list" where
  "rebuild_events p mount =
    [Log (Archiving mount (remote_path p mount)), Upload_called mount (remote_path p mount)]"

definition restore_events :: "Plugin \<Rightarrow> string \<Rightarrow> event list" where
  "restore_events p mount =
    [Log (Restoring mount (remote_path p mount)), Download_called (remote_path p mount) mount]"

fun is_Upload :: "event \<Rightarrow> bool" where
  "is_Upload (Upload_called src dst) = True"
| "is_Upload ev = False"

fun is_Download :: "event \<Rightarrow> bool" where
  "is_Download (Download_called src dst) = True"
| "is_Download ev = False"

text \<open>No upload comes after a download.\<close>

fun uploads_precede_downloads :: "event list \<Rightarrow> bool" where
  "uploads_precede_downloads [] = True"
| "uploads_precede_downloads (ev # evs) =
    ((if is_Download ev then list_all (\<lambda>x. \<not> is_Upload x) evs else True)
     \<and> uploads_precede_downloads evs)"

text \<open>The events that a run adds to the trace of its start state.\<close>

definition new_events :: "'w state \<Rightarrow> 'w state \<Rightarrow> event list" where
  "new_events s s' = drop (length (trace s)) (trace s')"

section \<open>Concrete inputs\<close>

text \<open>
  A provider whose calls follow a script: the world is the list of outcomes still to
  come, each upload or download takes the next one, and calls beyond the script succeed.
\<close>

definition next_outcome :: "error option list \<Rightarrow> error option \<times> error option list" where
  "next_outcome w = (case w of [] \<Rightarrow> (None, []) | r # rs \<Rightarrow> (r, rs))"

definition scripted :: "(unit, error option list) env" where
  "scripted = \<lparr>provider_NewS3 = (\<lambda>bucket acl encryption conf. ()),
               cache_Upload = (\<lambda>c src dst w. next_outcome w),
               cache_Download = (\<lambda>c src dst w. next_outcome w)\<rparr>"

definition example :: Plugin where
  "example = \<lparr>ACL = ''private'', Branch = ''main'', Bucket = ''cache'', Default = ''master'',
              Encryption = [], Endpoint = ''https://s3.example.com'', Key = [],
              Mount = [''./dist'', ''./node_modules'', ''./vendor''], PathStyle = False,
              Rebuild = True, Region = ''eu-west-1'', Repo = ''myrepo'', Restore = True,
              Secret = []\<rparr>"

text \<open>
  Two byte strings of Wang et al. (2004) with the same MD5 digest, cut after sixteen
  bytes into a common mount and two different branches.
\<close>

definition collision_mount :: string where
  "collision_mount =
    [CHR 0xD1, CHR 0x31, CHR 0xDD, CHR 0x02, CHR 0xC5, CHR 0xE6, CHR 0xEE, CHR 0xC4,
     CHR 0x69, CHR 0x3D, CHR 0x9A, CHR 0x06, CHR 0x98, CHR 0xAF, CHR 0xF9, CHR 0x5C]"

definition collision_branch1 :: string where
  "collision_branch1 =
    [CHR 0x2F, CHR 0xCA, CHR 0xB5, CHR 0x87, CHR 0x12, CHR 0x46, CHR 0x7E, CHR 0xAB,
     CHR 0x40, CHR 0x04, CHR 0x58, CHR 0x3E, CHR 0xB8, CHR 0xFB, CHR 0x7F, CHR 0x89,
     CHR 0x55, CHR 0xAD, CHR 0x34, CHR 0x06, CHR 0x09, CHR 0xF4, CHR 0xB3, CHR 0x02,
     CHR 0x83, CHR 0xE4, CHR 0x88, CHR 0x83, CHR 0x25, CHR 0x71, CHR 0x41, CHR 0x5A,
     CHR 0x08, CHR 0x51, CHR 0x25, CHR 0xE8, CHR 0xF7, CHR 0xCD, CHR 0xC9, CHR 0x9F,
     CHR 0xD9, CHR 0x1D, CHR 0xBD, CHR 0xF2, CHR 0x80, CHR 0x37, CHR 0x3C, CHR 0x5B,
     CHR 0xD8, CHR 0x82, CHR 0x3E, CHR 0x31, CHR 0x56, CHR 0x34, CHR 0x8F, CHR 0x5B,
     CHR 0xAE, CHR 0x6D, CHR 0xAC, CHR 0xD4, CHR 0x36, CHR 0xC9, CHR 0x19, CHR 0xC6,
     CHR 0xDD, CHR 0x53, CHR 0xE2, CHR 0xB4, CHR 0x87, CHR 0xDA, CHR 0x03, CHR 0xFD,
     CHR 0x02, CHR 0x39, CHR 0x63, CHR 0x06, CHR 0xD2, CHR 0x48, CHR 0xCD, CHR 0xA0,
     CHR 0xE9, CHR 0x9F, CHR 0x33, CHR 0x42, CHR 0x0F, CHR 0x57, CHR 0x7E, CHR 0xE8,
     CHR 0xCE, CHR 0x54, CHR 0xB6, CHR 0x70, CHR 0x80, CHR 0xA8, CHR 0x0D, CHR 0x1E,
     CHR 0xC6, CHR 0x98, CHR 0x21, CHR 0xBC, CHR 0xB6, CHR 0xA8, CHR 0x83, CHR 0x93,
     CHR 0x96, CHR 0xF9, CHR 0x65, CHR 0x2B, CHR 0x6F, CHR 0xF7, CHR 0x2A, CHR 0x70]"

definition collision_branch2 :: string where
  "collision_branch2 =
    [CHR 0x2F, CHR 0xCA, CHR 0xB5, CHR 0x07, CHR 0x12, CHR 0x46, CHR 0x7E, CHR 0xAB,
     CHR 0x40, CHR 0x04, CHR 0x58, CHR 0x3E, CHR 0xB8, CHR 0xFB, CHR 0x7F, CHR 0x89,
     CHR 0x55, CHR 0xAD, CHR 0x34, CHR 0x06, CHR 0x09, CHR 0xF4, CHR 0xB3, CHR 0x02,
     CHR 0x83, CHR 0xE4, CHR 0x88, CHR 0x83, CHR 0x25, CHR 0xF1, CHR 0x41, CHR 0x5A,
     CHR 0x08, CHR 0x51, CHR 0x25, CHR 0xE8, CHR 0xF7, CHR 0xCD, CHR 0xC9, CHR 0x9F,
     CHR 0xD9, CHR 0x1D, CHR 0xBD, CHR 0x72, CHR 0x80, CHR 0x37, CHR 0x3C, CHR 0x5B,
     CHR 0xD8, CHR 0x82, CHR 0x3E, CHR 0x31, CHR 0x56, CHR 0x34, CHR 0x8F, CHR 0x5B,
     CHR 0xAE, CHR 0x6D, CHR 0xAC, CHR 0xD4, CHR 0x36, CHR 0xC9, CHR 0x19, CHR 0xC6,
     CHR 0xDD, CHR 0x53, CHR 0xE2, CHR 0x34, CHR 0x87, CHR 0xDA, CHR 0x03, CHR 0xFD,
     CHR 0x02, CHR 0x39, CHR 0x63, CHR 0x06, CHR 0xD2, CHR 0x48, CHR 0xCD, CHR 0xA0,
     CHR 0xE9, CHR 0x9F, CHR 0x33, CHR 0x42, CHR 0x0F, CHR 0x57, CHR 0x7E, CHR 0xE8,
     CHR 0xCE, CHR 0x54, CHR 0xB6, CHR 0x70, CHR 0x80, CHR 0x28, CHR 0x0D, CHR 0x1E,
     CHR 0xC6, CHR 0x98, CHR 0x21, CHR 0xBC, CHR 0xB6, CHR 0xA8, CHR 0x83, CHR 0x93,
     CHR 0x96, CHR 0xF9, CHR 0x65, CHR 0xAB, CHR 0x6F, CHR 0xF7, CHR 0x2A, CHR 0x70]"

section \<open>The streaming digest computes MD5\<close>

lemma rest_short: "length p < BlockSize \<Longrightarrow> rest p = p"
  by (simp add: rest_def)

lemma rest_drop:
  assumes "BlockSize \<le> length p"
  shows "rest (drop BlockSize p) = rest p"
proof -
  obtain k where k: "length p = BlockSize + k"
    using assms le_Suc_ex by blast
  have "k mod BlockSize \<le> k"
    by simp
  then have "BlockSize + k - k mod BlockSize = k - k mod BlockSize + BlockSize"
    by simp
  then show ?thesis
    by (simp add: rest_def k)
qed

lemma length_rest: "length (rest p) = length p mod BlockSize"
  by (simp add: rest_def BlockSize_def)

lemma blockGeneric_append:
  "blockGeneric st (a @ b) = blockGeneric (blockGeneric st a) (rest a @ b)"
proof (induction st a rule: blockGeneric.induct)
  case (1 st p)
  show ?case
  proof (cases "BlockSize \<le> length p")
    case True
    then have "blockGeneric st (p @ b) = blockGeneric (compress st (take BlockSize p)) (drop BlockSize p @ b)"
      by (subst blockGeneric.simps) simp
    also have "\<dots> = blockGeneric (blockGeneric (compress st (take BlockSize p)) (drop BlockSize p)) (rest (drop BlockSize p) @ b)"
      using 1 True by simp
    also have "blockGeneric (compress st (take BlockSize p)) (drop BlockSize p) = blockGeneric st p"
      using True by (subst (2) blockGeneric.simps) simp
    finally show ?thesis using True by (simp add: rest_drop)
  next
    case False
    then show ?thesis by (simp add: rest_short blockGeneric.simps [of st p])
  qed
qed

lemma blockGeneric_short: "length p < BlockSize \<Longrightarrow> blockGeneric st p = st"
  by (simp add: blockGeneric.simps)

lemma pad_int: "int ((119 - n mod 64) mod 64) = (55 - int n) mod 64"
proof -
  have "n mod 64 < 64" by simp
  then have "int ((119 - n mod 64) mod 64) = (119 - int n mod 64) mod 64"
    by (simp add: zmod_int of_nat_diff)
  also have "\<dots> = (55 - int n mod 64 + 64) mod 64"
    by (simp add: algebra_simps)
  also have "\<dots> = (55 - int n mod 64) mod 64"
    by (simp only: mod_add_self2)
  also have "\<dots> = (55 - int n) mod 64"
    by (simp only: mod_diff_right_eq)
  finally show ?thesis .
qed

lemma mod64: "((x::int) mod 2 ^ 64) mod 64 = x mod 64"
  by (rule mod_mod_cancel) simp

lemma uint_of_nat64: "uint (of_nat n :: 64 word) = int n mod 2 ^ 64"
  by (simp add: uint_nat unat_of_nat zmod_int)

lemma pad_word: "unat ((55 - of_nat n :: 64 word) mod 64) = (119 - n mod 64) mod 64"
proof -
  have "uint ((55 - of_nat n :: 64 word) mod 64) = uint (55 - of_nat n :: 64 word) mod 64"
    by (simp add: uint_mod)
  also have "uint (55 - of_nat n :: 64 word) = (55 - int n mod 2 ^ 64) mod 2 ^ 64"
    by (simp add: uint_word_ariths uint_of_nat64)
  also have "\<dots> mod 64 = (55 - int n mod 2 ^ 64) mod 64"
    by (rule mod64)
  also have "\<dots> = (55 - int n) mod 64"
    using mod_diff_right_eq [of 55 "int n mod 2 ^ 64" 64] mod_diff_right_eq [of 55 "int n" 64]
    by (simp only: mod64)
  finally have "uint ((55 - of_nat n :: 64 word) mod 64) = int ((119 - n mod 64) mod 64)"
    by (simp only: pad_int)
  then have "int (unat ((55 - of_nat n :: 64 word) mod 64)) = int ((119 - n mod 64) mod 64)"
    by (simp only: uint_nat)
  then show ?thesis
    by (simp only: of_nat_eq_iff)
qed

lemma rest_take: "rest (take (length p - length p mod BlockSize) p) = []"
  by (simp add: rest_def min_def BlockSize_def)

lemma blockGeneric_take:
  "blockGeneric st (take (length p - length p mod BlockSize) p) = blockGeneric st p"
proof -
  let ?n = "length p - length p mod BlockSize"
  have "blockGeneric st (take ?n p @ drop ?n p)
      = blockGeneric (blockGeneric st (take ?n p)) (rest (take ?n p) @ drop ?n p)"
    by (rule blockGeneric_append)
  also have "\<dots> = blockGeneric (blockGeneric st (take ?n p)) (drop ?n p)"
    by (simp only: rest_take append_Nil)
  also have "\<dots> = blockGeneric st (take ?n p)"
    by (rule blockGeneric_short) (simp add: BlockSize_def)
  finally show ?thesis by simp
qed

lemma Write_stage2:
  "(if BlockSize \<le> length p1 then
      let n = length p1 - length p1 mod BlockSize
      in (blockGeneric s1 (take n p1), drop n p1)
    else (s1, p1)) = (blockGeneric s1 p1, rest p1)"
  by (simp add: Let_def blockGeneric_take rest_def blockGeneric_short rest_short)

lemma rest_append_block: "length a = BlockSize \<Longrightarrow> rest (a @ b) = rest b"
  using rest_drop [of "a @ b"] by simp

lemma Write_eq:
  assumes "length (digest_x d) < BlockSize"
  shows "Write d p = \<lparr>digest_s = blockGeneric (digest_s d) (digest_x d @ p),
                          digest_x = rest (digest_x d @ p),
                          digest_len = digest_len d + of_nat (length p)\<rparr>"
proof (cases "digest_x d = []")
  case True
  then show ?thesis
    unfolding Write_def Write_stage2 by (simp add: Let_def)
next
  case False
  show ?thesis
  proof (cases "length (digest_x d) + length p < BlockSize")
    case short: True
    then show ?thesis
      unfolding Write_def Write_stage2 using False
      by (simp add: Let_def min_def blockGeneric_short rest_short)
  next
    case long: False
    let ?n = "BlockSize - length (digest_x d)"
    have n: "min ?n (length p) = ?n"
      using long by simp
    have len: "length (digest_x d @ take ?n p) = BlockSize"
      using long assms by simp
    have split: "digest_x d @ p = (digest_x d @ take ?n p) @ drop ?n p"
      by simp
    have s: "blockGeneric (digest_s d) (digest_x d @ p)
           = blockGeneric (blockGeneric (digest_s d) (digest_x d @ take ?n p)) (drop ?n p)"
      using blockGeneric_append [of "digest_s d" "digest_x d @ take ?n p" "drop ?n p"]
        rest_short [of "[]"] rest_append_block [of "digest_x d @ take ?n p" "[]"] len
      by (simp add: BlockSize_def)
    have r: "rest (digest_x d @ p) = rest (drop ?n p)"
      using rest_append_block [OF len, of "drop ?n p"] by simp
    show ?thesis
      unfolding Write_def Write_stage2 using False len
      by (simp add: Let_def n s r)
  qed
qed

lemma rest_lt: "length (rest p) < BlockSize"
  by (simp add: length_rest BlockSize_def)

lemma rest_rest_append: "rest (rest a @ b) = rest (a @ b)"
proof (induction a rule: length_induct)
  case (1 p)
  show ?case
  proof (cases "BlockSize \<le> length p")
    case True
    then have shorter: "length (drop BlockSize p) < length p"
      by (simp add: BlockSize_def)
    have "rest (p @ b) = rest (drop BlockSize (p @ b))"
      using True by (simp only: rest_drop [of "p @ b"] length_append trans_le_add1)
    also have "\<dots> = rest (drop BlockSize p @ b)"
      using True by simp
    also have "\<dots> = rest (rest (drop BlockSize p) @ b)"
      using 1 shorter by simp
    finally show ?thesis
      using True by (simp add: rest_drop)
  next
    case False
    then show ?thesis by (simp add: rest_short)
  qed
qed

lemma md5_New_absorbed: "md5_New = absorbed []"
  by (simp add: md5_New_def absorbed_def rest_short blockGeneric_short BlockSize_def)

lemma Write_absorbed: "Write (absorbed m) p = absorbed (m @ p)"
proof -
  have "length (digest_x (absorbed m)) < BlockSize"
    by (simp add: absorbed_def rest_lt)
  then show ?thesis
    by (simp add: Write_eq) (simp add: absorbed_def blockGeneric_append [symmetric] rest_rest_append)
qed

lemma checkSum_tail_absorbed: "checkSum_tail (absorbed m) = md5_padding (length m)"
  by (simp add: checkSum_tail_def absorbed_def md5_padding_def pad_word push_bit_eq_mult)

lemma length_PutUint64: "length (PutUint64 v) = 8"
  by (simp add: PutUint64_def)

lemma length_md5_padding: "length (md5_padding n) = 9 + (119 - n mod 64) mod 64"
  by (simp add: md5_padding_def length_PutUint64)

lemma pad_count: "r < 64 \<Longrightarrow> (r + (9 + (119 - r) mod 64)) mod 64 = (0::nat)"
proof (cases "r \<le> 55")
  case True
  then have "64 \<le> 119 - r" by simp
  then have "(119 - r) mod 64 = (119 - r - 64) mod 64"
    by (rule le_mod_geq)
  also have "\<dots> = 55 - r"
    using True by simp
  finally have "r + (9 + (119 - r) mod 64) = 64"
    using True by simp
  then show ?thesis by (simp only: mod_self)
next
  case False
  assume "r < 64"
  then have "(119 - r) mod 64 = 119 - r"
    using False by simp
  then have "r + (9 + (119 - r) mod 64) = 128"
    using \<open>r < 64\<close> by simp
  moreover have "128 mod 64 = (0::nat)"
    by simp
  ultimately show ?thesis by (simp only:)
qed

lemma padded_length: "(n + (9 + (119 - n mod 64) mod 64)) mod 64 = (0::nat)"
proof -
  have "(n + (9 + (119 - n mod 64) mod 64)) mod 64 = (n mod 64 + (9 + (119 - n mod 64) mod 64)) mod 64"
    by (simp only: mod_add_left_eq)
  also have "\<dots> = 0"
    by (rule pad_count) simp
  finally show ?thesis .
qed

lemma rest_padded: "rest (m @ md5_padding (length m)) = []"
  by (simp add: rest_def length_md5_padding padded_length BlockSize_def)

lemma blockGeneric_foldl:
  "blockGeneric st p = foldl compress st (map (\<lambda>k. take 64 (drop (64 * k) p)) [0..<length p div 64])"
proof (induction st p rule: blockGeneric.induct)
  case (1 st p)
  show ?case
  proof (cases "BlockSize \<le> length p")
    case True
    then obtain j where j: "length p div 64 = Suc j"
      by (cases "length p div 64") (auto simp: BlockSize_def)
    have d: "length (drop BlockSize p) div 64 = j"
      using True j by (simp add: BlockSize_def le_div_geq)
    have "[0..<Suc j] = 0 # map Suc [0..<j]"
      by (simp only: upt_conv_Cons zero_less_Suc map_Suc_upt)
    then have "map (\<lambda>k. take 64 (drop (64 * k) p)) [0..<Suc j]
             = take 64 p # map (\<lambda>k. take 64 (drop (64 * k) (drop BlockSize p))) [0..<j]"
      by (simp add: BlockSize_def add.commute)
    then show ?thesis
      using 1 [OF True] True j d by (subst blockGeneric.simps) (simp add: BlockSize_def)
  next
    case False
    then show ?thesis by (simp add: blockGeneric_short BlockSize_def)
  qed
qed

lemma checkSum_absorbed: "checkSum (absorbed m) = md5 m"
  by (simp add: checkSum_def checkSum_tail_absorbed Write_absorbed md5_def)
     (simp add: absorbed_def blockGeneric_foldl)

lemma checkSum_panics_absorbed: "\<not> checkSum_panics (absorbed m)"
  by (simp add: checkSum_panics_def checkSum_tail_absorbed Write_absorbed)
     (simp add: absorbed_def rest_padded)

lemma writes_absorbed: "foldl io_WriteString md5_New [mount, branch] = absorbed (bytes_of mount @ bytes_of branch)"
  by (simp add: io_WriteString_def md5_New_absorbed Write_absorbed)

lemma hash_eq: "hash mount branch = Sprintf_x (md5 (bytes_of mount @ bytes_of branch))"
  by (simp only: hash_def Let_def writes_absorbed Sum_def checkSum_absorbed append_Nil)

lemma length_md5: "length (md5 m) = 16"
  by (simp add: md5_def PutUint32_def split: prod.splits)

lemma length_Sprintf_x: "length (Sprintf_x b) = 2 * length b"
  by (induction b) (simp_all add: Sprintf_x_def)

lemma set_Sprintf_x: "set (Sprintf_x b) \<subseteq> set ldigits"
proof -
  have "length ldigits = 16"
    by (simp add: ldigits_def)
  then have "ldigits ! k \<in> set ldigits" if "k < 16" for k
    using that by (simp only: nth_mem)
  moreover have "unat c div 16 < 16" "unat c mod 16 < 16" for c :: byte
  proof -
    have "unat c < 16 * 16"
      using unsigned_less [of c, where ?'a = nat] by simp
    then show "unat c div 16 < 16"
      by (rule less_mult_imp_div_less)
    show "unat c mod 16 < 16"
      by simp
  qed
  ultimately show ?thesis
    by (auto simp: Sprintf_x_def)
qed

section \<open>Joining a directory and a plain name\<close>

lemma ends_element_append [simp]: "ends_element (t @ Separator # ys) = ends_element t"
  by (cases t) (simp_all add: ends_element_def IsPathSeparator_def)

lemma takeWhile_sep: "takeWhile (\<lambda>x. \<not> IsPathSeparator x) (xs @ Separator # ys) = takeWhile (\<lambda>x. \<not> IsPathSeparator x) xs"
  by (induction xs) (simp_all add: IsPathSeparator_def)

lemma dropWhile_sep: "dropWhile (\<lambda>x. \<not> IsPathSeparator x) (xs @ Separator # ys) = dropWhile (\<lambda>x. \<not> IsPathSeparator x) xs @ Separator # ys"
  by (induction xs) (simp_all add: IsPathSeparator_def)

lemma Separator_not_dot: "Separator \<noteq> CHR ''.''"
  by (simp add: Separator_def)

lemma is_dotdot_append [simp]: "is_dotdot c (t @ Separator # ys) = is_dotdot c t"
  by (cases t) (simp_all add: is_dotdot_def Separator_not_dot)

lemma step_sep:
  assumes "IsPathSeparator c"
  shows "Clean_loop rooted out dotdot (c # t) = Clean_loop rooted out dotdot t"
proof -
  have a: "IsPathSeparator c = True"
    using assms by simp
  show ?thesis
    by (subst Clean_loop.simps(2)) (simp only: a if_True)
qed

lemma step_dot:
  assumes "\<not> IsPathSeparator c" and "c = CHR ''.'' \<and> ends_element t"
  shows "Clean_loop rooted out dotdot (c # t) = Clean_loop rooted out dotdot t"
proof -
  have a: "IsPathSeparator c = False" and b: "(c = CHR ''.'' \<and> ends_element t) = True"
    using assms by simp_all
  show ?thesis
    by (subst Clean_loop.simps(2)) (simp only: a b if_True if_False)
qed

lemma step_dotdot:
  assumes "\<not> IsPathSeparator c" and "\<not> (c = CHR ''.'' \<and> ends_element t)" and "is_dotdot c t"
  shows "Clean_loop rooted out dotdot (c # t) =
     (if dotdot < length out then
        Clean_loop rooted (take (backtrack out dotdot (length out - 1)) out) dotdot (tl t)
      else if \<not> rooted then
        Clean_loop rooted ((if 0 < length out then out @ [Separator] else out) @ ''..'')
          (length ((if 0 < length out then out @ [Separator] else out) @ ''..'')) (tl t)
      else Clean_loop rooted out dotdot (tl t))"
proof -
  have a: "IsPathSeparator c = False" and b: "(c = CHR ''.'' \<and> ends_element t) = False"
    and d: "(c = CHR ''.'' \<and> (case t of [] \<Rightarrow> False | c1 # t2 \<Rightarrow> c1 = CHR ''.'' \<and> ends_element t2)) = True"
    using assms by (simp_all add: is_dotdot_def)
  show ?thesis
    by (subst Clean_loop.simps(2)) (simp only: a b d if_True if_False Let_def)
qed

lemma step_elem:
  assumes "\<not> IsPathSeparator c" and "\<not> (c = CHR ''.'' \<and> ends_element t)" and "\<not> is_dotdot c t"
  shows "Clean_loop rooted out dotdot (c # t) =
     Clean_loop rooted
       ((if rooted \<and> length out \<noteq> 1 \<or> \<not> rooted \<and> length out \<noteq> 0 then out @ [Separator] else out)
          @ takeWhile (\<lambda>x. \<not> IsPathSeparator x) (c # t)) dotdot
       (dropWhile (\<lambda>x. \<not> IsPathSeparator x) (c # t))"
proof -
  have a: "IsPathSeparator c = False" and b: "(c = CHR ''.'' \<and> ends_element t) = False"
    and d: "(c = CHR ''.'' \<and> (case t of [] \<Rightarrow> False | c1 # t2 \<Rightarrow> c1 = CHR ''.'' \<and> ends_element t2)) = False"
    using assms by (simp_all add: is_dotdot_def)
  show ?thesis
    by (subst Clean_loop.simps(2)) (simp only: a b d if_True if_False Let_def)
qed

lemma Clean_loop_append:
  "Clean_loop rooted out dotdot (xs @ Separator # ys) =
     (case Clean_loop rooted out dotdot xs of (out', dotdot') \<Rightarrow>
        Clean_loop rooted out' dotdot' (Separator # ys))"
proof (induction rooted out dotdot xs rule: Clean_loop.induct)
  case (1 rooted out dotdot)
  show ?case by (simp add: Clean_loop.simps(1))
next
  case (2 rooted out dotdot c t)
  show ?case
  proof (cases "IsPathSeparator c")
    case True
    show ?thesis
      unfolding append_Cons step_sep [OF True] using 2(1) [OF True] .
  next
    case nosep: False
    show ?thesis
    proof (cases "c = CHR ''.'' \<and> ends_element t")
      case True
      then have True': "c = CHR ''.'' \<and> ends_element (t @ Separator # ys)"
        by simp
      show ?thesis
        unfolding append_Cons step_dot [OF nosep True] step_dot [OF nosep True']
        using 2(2) [OF nosep True] .
    next
      case nodot: False
      then have nodot': "\<not> (c = CHR ''.'' \<and> ends_element (t @ Separator # ys))"
        by simp
      show ?thesis
      proof (cases "is_dotdot c t")
        case True
        then have True': "is_dotdot c (t @ Separator # ys)"
          by simp
        from True have tl: "tl (t @ Separator # ys) = tl t @ Separator # ys"
          by (cases t) (simp_all add: is_dotdot_def)
        from True have cond: "c = CHR ''.'' \<and> (case t of [] \<Rightarrow> False | c1 # t2 \<Rightarrow> c1 = CHR ''.'' \<and> ends_element t2)"
          by (simp add: is_dotdot_def)
        show ?thesis
          unfolding append_Cons step_dotdot [OF nosep nodot True] step_dotdot [OF nosep nodot' True'] tl
          using 2(3) [OF nosep nodot cond] 2(4) [OF nosep nodot cond _ _ refl] 2(5) [OF nosep nodot cond]
          by simp
      next
        case False
        then have False': "\<not> is_dotdot c (t @ Separator # ys)"
          by simp
        from False have cond: "\<not> (c = CHR ''.'' \<and> (case t of [] \<Rightarrow> False | c1 # t2 \<Rightarrow> c1 = CHR ''.'' \<and> ends_element t2))"
          by (simp add: is_dotdot_def)
        show ?thesis
          unfolding append_Cons step_elem [OF nosep nodot False] step_elem [OF nosep nodot' False']
          using 2(6) [OF nosep nodot cond refl] takeWhile_sep [of "c # t" ys] dropWhile_sep [of "c # t" ys]
          by simp
      qed
    qed
  qed
qed

lemma Clean_loop_name:
  assumes "plain_name key"
  shows "Clean_loop rooted out dotdot (Separator # key) =
     ((if rooted \<and> length out \<noteq> 1 \<or> \<not> rooted \<and> length out \<noteq> 0 then out @ [Separator] else out) @ key, dotdot)"
proof -
  from assms obtain c t where key: "key = c # t" and c: "c \<noteq> Separator" "c \<noteq> CHR ''.''"
    and all: "list_all (\<lambda>c. c \<noteq> Separator \<and> c \<noteq> CHR ''.'') key"
    by (cases key) (auto simp: plain_name_def)
  have tw: "takeWhile (\<lambda>x. \<not> IsPathSeparator x) key = key"
    using all by (simp add: takeWhile_eq_all_conv IsPathSeparator_def list_all_iff)
  have dw: "dropWhile (\<lambda>x. \<not> IsPathSeparator x) key = []"
    using all by (simp add: IsPathSeparator_def list_all_iff)
  have "Clean_loop rooted out dotdot (Separator # key) = Clean_loop rooted out dotdot (c # t)"
    by (simp add: step_sep IsPathSeparator_def key)
  also have "\<dots> = Clean_loop rooted
       ((if rooted \<and> length out \<noteq> 1 \<or> \<not> rooted \<and> length out \<noteq> 0 then out @ [Separator] else out)
          @ takeWhile (\<lambda>x. \<not> IsPathSeparator x) (c # t)) dotdot
       (dropWhile (\<lambda>x. \<not> IsPathSeparator x) (c # t))"
    using c by (intro step_elem) (simp_all add: IsPathSeparator_def is_dotdot_def)
  finally show ?thesis
    using tw dw by (simp add: key [symmetric] Clean_loop.simps(1))
qed

lemma Clean_name: "plain_name key \<Longrightarrow> Clean key = key"
proof -
  assume k: "plain_name key"
  then have "Clean_loop False [] 0 (Separator # key) = (key, 0)"
    by (simp add: Clean_loop_name)
  then have "Clean_loop False [] 0 key = (key, 0)"
    by (simp add: step_sep IsPathSeparator_def)
  moreover from k have "key \<noteq> []" "\<not> IsPathSeparator (hd key)"
    by (cases key; simp add: plain_name_def IsPathSeparator_def)+
  ultimately show ?thesis
    by (simp add: Clean_def)
qed

lemma filepath_Join_name:
  assumes "plain_name key"
  shows "filepath_Join [dir, key] = join_dir dir @ key"
proof (cases "dir = []")
  case True
  with assms show ?thesis
    by (simp add: join_dir_def Clean_name plain_name_def filepath_Join.simps)
next
  case False
  then obtain d ds where dir: "dir = d # ds"
    by (cases dir) auto
  have key: "key \<noteq> []"
    using assms by (simp add: plain_name_def)
  show ?thesis
  proof (cases "IsPathSeparator d")
    case True
    then show ?thesis
      using key
      by (simp add: filepath_Join.simps dir Clean_def join_dir_def Clean_loop_append Clean_loop_name [OF assms]
          split: prod.splits)
  next
    case False
    have "Clean_loop False [] 0 ((d # ds) @ Separator # key)
        = (case Clean_loop False [] 0 (d # ds) of (out', dotdot') \<Rightarrow> Clean_loop False out' dotdot' (Separator # key))"
      by (rule Clean_loop_append)
    then show ?thesis
      using key False
      by (simp add: filepath_Join.simps dir Clean_def join_dir_def Clean_loop_name [OF assms] split: prod.splits)
  qed
qed

section \<open>The rebuild and restore loops\<close>

lemma trace_record_event [simp]: "trace (record_event ev s) = trace s @ [ev]"
  by (simp add: record_event_def)

lemma world_record_event [simp]: "world (record_event ev s) = world s"
  by (simp add: record_event_def)

lemma rebuild_loop_Cons_fail:
  assumes "cache_Upload E c mount (remote_path p mount) (world s) = (Some e, w)"
  shows "rebuild_loop E p c (mount # mounts) s =
           (Some (Wrap e ''could not upload''),
            \<lparr>world = w, trace = trace s @ rebuild_events p mount\<rparr>)"
  using assms
  by (cases s) (simp add: call_Upload_def log_Printf_def record_event_def remote_path_def rebuild_events_def Let_def)

lemma rebuild_loop_Cons_ok:
  assumes "cache_Upload E c mount (remote_path p mount) (world s) = (None, w)"
  shows "rebuild_loop E p c (mount # mounts) s =
           rebuild_loop E p c mounts \<lparr>world = w, trace = trace s @ rebuild_events p mount\<rparr>"
  using assms
  by (cases s) (simp add: call_Upload_def log_Printf_def record_event_def remote_path_def rebuild_events_def Let_def)

lemma rebuild_loop_append:
  "rebuild_loop E p c (pre @ post) s =
     (case rebuild_loop E p c pre s of
        (None, s1) \<Rightarrow> rebuild_loop E p c post s1
      | (Some e, s1) \<Rightarrow> (Some e, s1))"
proof (induction pre arbitrary: s)
  case Nil
  show ?case by simp
next
  case (Cons mount pre)
  obtain r w where up: "cache_Upload E c mount (remote_path p mount) (world s) = (r, w)"
    by (cases "cache_Upload E c mount (remote_path p mount) (world s)")
  show ?case
  proof (cases r)
    case None
    with up Cons show ?thesis
      by (simp only: append_Cons rebuild_loop_Cons_ok)
  next
    case (Some e)
    with up show ?thesis
      by (simp only: append_Cons rebuild_loop_Cons_fail) simp
  qed
qed

lemma rebuild_loop_trace_ok:
  "rebuild_loop E p c mounts s = (None, s') \<Longrightarrow>
   trace s' = trace s @ concat (map (rebuild_events p) mounts)"
proof (induction mounts arbitrary: s)
  case Nil
  then show ?case by simp
next
  case (Cons mount mounts)
  obtain r w where up: "cache_Upload E c mount (remote_path p mount) (world s) = (r, w)"
    by (cases "cache_Upload E c mount (remote_path p mount) (world s)")
  show ?case
  proof (cases r)
    case None
    with up Cons.prems have "rebuild_loop E p c mounts \<lparr>world = w, trace = trace s @ rebuild_events p mount\<rparr> = (None, s')"
      by (simp only: rebuild_loop_Cons_ok)
    from Cons.IH [OF this] show ?thesis by simp
  next
    case (Some e)
    with up Cons.prems show ?thesis
      by (simp only: rebuild_loop_Cons_fail) simp
  qed
qed

lemma rebuild_loop_trace:
  "\<exists>k\<le>length mounts. trace (snd (rebuild_loop E p c mounts s))
      = trace s @ concat (map (rebuild_events p) (take k mounts))"
proof (induction mounts arbitrary: s)
  case Nil
  show ?case by simp
next
  case (Cons mount mounts)
  obtain r w where up: "cache_Upload E c mount (remote_path p mount) (world s) = (r, w)"
    by (cases "cache_Upload E c mount (remote_path p mount) (world s)")
  show ?case
  proof (cases r)
    case None
    let ?s1 = "\<lparr>world = w, trace = trace s @ rebuild_events p mount\<rparr>"
    from Cons.IH [of ?s1] obtain k where k: "k \<le> length mounts"
      "trace (snd (rebuild_loop E p c mounts ?s1)) = trace ?s1 @ concat (map (rebuild_events p) (take k mounts))"
      by blast
    have "Suc k \<le> length (mount # mounts)"
      using k(1) by simp
    moreover have "trace (snd (rebuild_loop E p c (mount # mounts) s))
        = trace s @ concat (map (rebuild_events p) (take (Suc k) (mount # mounts)))"
      using up None k(2) by (simp only: rebuild_loop_Cons_ok) simp
    ultimately show ?thesis by blast
  next
    case (Some e)
    have "Suc 0 \<le> length (mount # mounts)"
      by simp
    moreover have "trace (snd (rebuild_loop E p c (mount # mounts) s))
        = trace s @ concat (map (rebuild_events p) (take (Suc 0) (mount # mounts)))"
      using up Some by (simp only: rebuild_loop_Cons_fail) simp
    ultimately show ?thesis by blast
  qed
qed

lemma restore_loop_Cons_fail:
  assumes "cache_Download E c (remote_path p mount) mount (world s) = (Some e, w)"
  shows "restore_loop E p c (mount # mounts) s =
           (Some (Wrap e ''could not download''),
            \<lparr>world = w, trace = trace s @ restore_events p mount\<rparr>)"
  using assms
  by (cases s) (simp add: call_Download_def log_Printf_def record_event_def remote_path_def restore_events_def Let_def)

lemma restore_loop_Cons_ok:
  assumes "cache_Download E c (remote_path p mount) mount (world s) = (None, w)"
  shows "restore_loop E p c (mount # mounts) s =
           restore_loop E p c mounts \<lparr>world = w, trace = trace s @ restore_events p mount\<rparr>"
  using assms
  by (cases s) (simp add: call_Download_def log_Printf_def record_event_def remote_path_def restore_events_def Let_def)

lemma restore_loop_append:
  "restore_loop E p c (pre @ post) s =
     (case restore_loop E p c pre s of
        (None, s1) \<Rightarrow> restore_loop E p c post s1
      | (Some e, s1) \<Rightarrow> (Some e, s1))"
proof (induction pre arbitrary: s)
  case Nil
  show ?case by simp
next
  case (Cons mount pre)
  obtain r w where dl: "cache_Download E c (remote_path p mount) mount (world s) = (r, w)"
    by (cases "cache_Download E c (remote_path p mount) mount (world s)")
  show ?case
  proof (cases r)
    case None
    with dl Cons show ?thesis
      by (simp only: append_Cons restore_loop_Cons_ok)
  next
    case (Some e)
    with dl show ?thesis
      by (simp only: append_Cons restore_loop_Cons_fail) simp
  qed
qed

lemma restore_loop_trace_ok:
  "restore_loop E p c mounts s = (None, s') \<Longrightarrow>
   trace s' = trace s @ concat (map (restore_events p) mounts)"
proof (induction mounts arbitrary: s)
  case Nil
  then show ?case by simp
next
  case (Cons mount mounts)
  obtain r w where dl: "cache_Download E c (remote_path p mount) mount (world s) = (r, w)"
    by (cases "cache_Download E c (remote_path p mount) mount (world s)")
  show ?case
  proof (cases r)
    case None
    with dl Cons.prems have "restore_loop E p c mounts \<lparr>world = w, trace = trace s @ restore_events p mount\<rparr> = (None, s')"
      by (simp only: restore_loop_Cons_ok)
    from Cons.IH [OF this] show ?thesis by simp
  next
    case (Some e)
    with dl Cons.prems show ?thesis
      by (simp only: restore_loop_Cons_fail) simp
  qed
qed

lemma restore_loop_trace:
  "\<exists>k\<le>length mounts. trace (snd (restore_loop E p c mounts s))
      = trace s @ concat (map (restore_events p) (take k mounts))"
proof (induction mounts arbitrary: s)
  case Nil
  show ?case by simp
next
  case (Cons mount mounts)
  obtain r w where dl: "cache_Download E c (remote_path p mount) mount (world s) = (r, w)"
    by (cases "cache_Download E c (remote_path p mount) mount (world s)")
  show ?case
  proof (cases r)
    case None
    let ?s1 = "\<lparr>world = w, trace = trace s @ restore_events p mount\<rparr>"
    from Cons.IH [of ?s1] obtain k where k: "k \<le> length mounts"
      "trace (snd (restore_loop E p c mounts ?s1)) = trace ?s1 @ concat (map (restore_events p) (take k mounts))"
      by blast
    have "Suc k \<le> length (mount # mounts)"
      using k(1) by simp
    moreover have "trace (snd (restore_loop E p c (mount # mounts) s))
        = trace s @ concat (map (restore_events p) (take (Suc k) (mount # mounts)))"
      using dl None k(2) by (simp only: restore_loop_Cons_ok) simp
    ultimately show ?thesis by blast
  next
    case (Some e)
    have "Suc 0 \<le> length (mount # mounts)"
      by simp
    moreover have "trace (snd (restore_loop E p c (mount # mounts) s))
        = trace s @ concat (map (restore_events p) (take (Suc 0) (mount # mounts)))"
      using dl Some by (simp only: restore_loop_Cons_fail) simp
    ultimately show ?thesis by blast
  qed
qed

text \<open>An error of a loop is the error of a call, wrapped once.\<close>

lemma rebuild_loop_error:
  "rebuild_loop E p c mounts s = (Some err, s') \<Longrightarrow> \<exists>e. err = Wrap e ''could not upload''"
proof (induction mounts arbitrary: s)
  case Nil
  then show ?case by simp
next
  case (Cons mount mounts)
  obtain r w where up: "cache_Upload E c mount (remote_path p mount) (world s) = (r, w)"
    by (cases "cache_Upload E c mount (remote_path p mount) (world s)")
  show ?case
  proof (cases r)
    case None
    with up Cons.prems have "rebuild_loop E p c mounts \<lparr>world = w, trace = trace s @ rebuild_events p mount\<rparr> = (Some err, s')"
      by (simp only: rebuild_loop_Cons_ok)
    then show ?thesis by (rule Cons.IH)
  next
    case (Some e)
    with up Cons.prems show ?thesis
      by (simp only: rebuild_loop_Cons_fail) auto
  qed
qed

lemma restore_loop_error:
  "restore_loop E p c mounts s = (Some err, s') \<Longrightarrow> \<exists>e. err = Wrap e ''could not download''"
proof (induction mounts arbitrary: s)
  case Nil
  then show ?case by simp
next
  case (Cons mount mounts)
  obtain r w where dl: "cache_Download E c (remote_path p mount) mount (world s) = (r, w)"
    by (cases "cache_Download E c (remote_path p mount) mount (world s)")
  show ?case
  proof (cases r)
    case None
    with dl Cons.prems have "restore_loop E p c mounts \<lparr>world = w, trace = trace s @ restore_events p mount\<rparr> = (Some err, s')"
      by (simp only: restore_loop_Cons_ok)
    then show ?thesis by (rule Cons.IH)
  next
    case (Some e)
    with dl Cons.prems show ?thesis
      by (simp only: restore_loop_Cons_fail) auto
  qed
qed

text \<open>The events that the two passes add to the trace.\<close>

lemma is_Download_rebuild_events: "list_all (\<lambda>ev. \<not> is_Download ev) (concat (map (rebuild_events p) mounts))"
  by (induction mounts) (simp_all add: rebuild_events_def)

lemma is_Upload_restore_events: "list_all (\<lambda>ev. \<not> is_Upload ev) (concat (map (restore_events p) mounts))"
  by (induction mounts) (simp_all add: restore_events_def)

lemma processRebuild_trace:
  "\<exists>evs. trace (snd (processRebuild E p c s)) = trace s @ evs \<and> list_all (\<lambda>ev. \<not> is_Download ev) evs"
proof -
  obtain k where k: "trace (snd (rebuild_loop E p c (Mount p) s))
      = trace s @ concat (map (rebuild_events p) (take k (Mount p)))"
    using rebuild_loop_trace [of "Mount p" E p c s] by blast
  obtain r s' where run: "rebuild_loop E p c (Mount p) s = (r, s')"
    by (cases "rebuild_loop E p c (Mount p) s")
  show ?thesis
  proof (cases r)
    case None
    with run k have "trace (snd (processRebuild E p c s))
        = trace s @ (concat (map (rebuild_events p) (take k (Mount p))) @ [Log Cache_built])"
      by (simp add: processRebuild_def log_Printf_def)
    moreover have "list_all (\<lambda>ev. \<not> is_Download ev) (concat (map (rebuild_events p) (take k (Mount p))) @ [Log Cache_built])"
      using is_Download_rebuild_events [of p "take k (Mount p)"] by simp
    ultimately show ?thesis by blast
  next
    case (Some e)
    with run k have "trace (snd (processRebuild E p c s))
        = trace s @ concat (map (rebuild_events p) (take k (Mount p)))"
      by (simp add: processRebuild_def)
    then show ?thesis
      using is_Download_rebuild_events [of p "take k (Mount p)"] by blast
  qed
qed

lemma processRestore_trace:
  "\<exists>evs. trace (snd (processRestore E p c s)) = trace s @ evs \<and> list_all (\<lambda>ev. \<not> is_Upload ev) evs"
proof -
  obtain k where k: "trace (snd (restore_loop E p c (Mount p) s))
      = trace s @ concat (map (restore_events p) (take k (Mount p)))"
    using restore_loop_trace [of "Mount p" E p c s] by blast
  obtain r s' where run: "restore_loop E p c (Mount p) s = (r, s')"
    by (cases "restore_loop E p c (Mount p) s")
  show ?thesis
  proof (cases r)
    case None
    with run k have "trace (snd (processRestore E p c s))
        = trace s @ (concat (map (restore_events p) (take k (Mount p))) @ [Log Cache_restored])"
      by (simp add: processRestore_def log_Printf_def)
    moreover have "list_all (\<lambda>ev. \<not> is_Upload ev) (concat (map (restore_events p) (take k (Mount p))) @ [Log Cache_restored])"
      using is_Upload_restore_events [of p "take k (Mount p)"] by simp
    ultimately show ?thesis by blast
  next
    case (Some e)
    with run k have "trace (snd (processRestore E p c s))
        = trace s @ concat (map (restore_events p) (take k (Mount p)))"
      by (simp add: processRestore_def)
    then show ?thesis
      using is_Upload_restore_events [of p "take k (Mount p)"] by blast
  qed
qed

lemma uploads_precede_downloads_no_upload:
  "list_all (\<lambda>ev. \<not> is_Upload ev) evs \<Longrightarrow> uploads_precede_downloads evs"
  by (induction evs) simp_all

lemma uploads_precede_downloads_append:
  "list_all (\<lambda>ev. \<not> is_Download ev) xs \<Longrightarrow> list_all (\<lambda>ev. \<not> is_Upload ev) ys \<Longrightarrow>
   uploads_precede_downloads (xs @ ys)"
  by (induction xs) (simp_all add: uploads_precede_downloads_no_upload)

lemma processRebuild_Nil:
  "Mount p = [] \<Longrightarrow> processRebuild E p c s = (None, s\<lparr>trace := trace s @ [Log Cache_built]\<rparr>)"
  by (simp add: processRebuild_def log_Printf_def record_event_def)

lemma processRestore_Nil:
  "Mount p = [] \<Longrightarrow> processRestore E p c s = (None, s\<lparr>trace := trace s @ [Log Cache_restored]\<rparr>)"
  by (simp add: processRestore_def log_Printf_def record_event_def)

lemma processRebuild_error:
  "processRebuild E p c s = (Some err, s') \<Longrightarrow> \<exists>e. err = Wrap e ''could not upload''"
  using rebuild_loop_error [of E p c "Mount p" s err s']
  by (auto simp: processRebuild_def split: prod.splits option.splits)

lemma processRestore_error:
  "processRestore E p c s = (Some err, s') \<Longrightarrow> \<exists>e. err = Wrap e ''could not download''"
  using restore_loop_error [of E p c "Mount p" s err s']
  by (auto simp: processRestore_def split: prod.splits option.splits)

lemma processRebuild_ok_trace:
  "processRebuild E p c s = (None, s1) \<Longrightarrow>
   trace s1 = trace s @ concat (map (rebuild_events p) (Mount p)) @ [Log Cache_built]"
  using rebuild_loop_trace_ok [of E p c "Mount p" s]
  by (auto simp: processRebuild_def log_Printf_def split: prod.splits option.splits)

lemma processRebuild_new_events:
  "list_all (\<lambda>ev. \<not> is_Download ev) (new_events s (snd (processRebuild E p c s)))"
  using processRebuild_trace [of E p c s] by (auto simp: new_events_def)

lemma filter_Upload_rebuild_events:
  "filter is_Upload (concat (map (rebuild_events p) mounts))
     = map (\<lambda>m. Upload_called m (remote_path p m)) mounts"
  by (induction mounts) (simp_all add: rebuild_events_def)

lemma filter_Download_restore_events:
  "filter is_Download (concat (map (restore_events p) mounts))
     = map (\<lambda>m. Download_called (remote_path p m) m) mounts"
  by (induction mounts) (simp_all add: restore_events_def)

lemma processRebuild_uploads:
  "\<exists>k\<le>length (Mount p). filter is_Upload (new_events s (snd (processRebuild E p c s)))
      = map (\<lambda>m. Upload_called m (remote_path p m)) (take k (Mount p))"
proof -
  obtain k where k: "k \<le> length (Mount p)" "trace (snd (rebuild_loop E p c (Mount p) s))
      = trace s @ concat (map (rebuild_events p) (take k (Mount p)))"
    using rebuild_loop_trace [of "Mount p" E p c s] by blast
  have "filter is_Upload (new_events s (snd (processRebuild E p c s)))
      = map (\<lambda>m. Upload_called m (remote_path p m)) (take k (Mount p))"
    using k(2)
    by (cases "rebuild_loop E p c (Mount p) s")
       (auto simp: processRebuild_def new_events_def log_Printf_def filter_Upload_rebuild_events
          split: option.splits)
  with k(1) show ?thesis by blast
qed

lemma processRestore_downloads:
  "\<exists>k\<le>length (Mount p). filter is_Download (new_events s (snd (processRestore E p c s)))
      = map (\<lambda>m. Download_called (remote_path p m) m) (take k (Mount p))"
proof -
  obtain k where k: "k \<le> length (Mount p)" "trace (snd (restore_loop E p c (Mount p) s))
      = trace s @ concat (map (restore_events p) (take k (Mount p)))"
    using restore_loop_trace [of "Mount p" E p c s] by blast
  have "filter is_Download (new_events s (snd (processRestore E p c s)))
      = map (\<lambda>m. Download_called (remote_path p m) m) (take k (Mount p))"
    using k(2)
    by (cases "restore_loop E p c (Mount p) s")
       (auto simp: processRestore_def new_events_def log_Printf_def filter_Download_restore_events
          split: option.splits)
  with k(1) show ?thesis by blast
qed

section \<open>The entry point\<close>

lemma Exec_unfold:
  "Exec E p s =
    (case (if Rebuild p
           then processRebuild E p (provider_NewS3 E (Bucket p) (ACL p) (Encryption p) (Exec_conf p))
                  (record_event (NewS3_called (Bucket p) (ACL p) (Encryption p) (Exec_conf p)) s)
           else (None, record_event (NewS3_called (Bucket p) (ACL p) (Encryption p) (Exec_conf p)) s)) of
       (Some e, s1) \<Rightarrow> (Some (Wrap e ''process rebuild failed''), s1)
     | (None, s1) \<Rightarrow>
         (case (if Restore p
                then processRestore E p (provider_NewS3 E (Bucket p) (ACL p) (Encryption p) (Exec_conf p)) s1
                else (None, s1)) of
            (Some e, s2) \<Rightarrow> (Some (Wrap e ''process restore failed''), s2)
          | (None, s2) \<Rightarrow> (None, s2)))"
  by (simp add: Exec_def Let_def split: prod.splits option.splits)

lemma Exec_trace:
  "\<exists>xs ys. trace (snd (Exec E p s)) =
      trace s @ NewS3_called (Bucket p) (ACL p) (Encryption p) (Exec_conf p) # xs @ ys
    \<and> list_all (\<lambda>ev. \<not> is_Download ev) xs \<and> list_all (\<lambda>ev. \<not> is_Upload ev) ys"
proof -
  let ?c = "provider_NewS3 E (Bucket p) (ACL p) (Encryption p) (Exec_conf p)"
  let ?n = "NewS3_called (Bucket p) (ACL p) (Encryption p) (Exec_conf p)"
  let ?s0 = "record_event ?n s"
  let ?r1 = "if Rebuild p then processRebuild E p ?c ?s0 else (None, ?s0)"
  obtain err1 s1 where r1: "?r1 = (err1, s1)"
    by (cases ?r1)
  have "\<exists>xs. trace (snd ?r1) = trace ?s0 @ xs \<and> list_all (\<lambda>ev. \<not> is_Download ev) xs"
    using processRebuild_trace [of E p ?c ?s0] by (cases "Rebuild p") simp_all
  then obtain xs where xs: "trace s1 = trace s @ ?n # xs" "list_all (\<lambda>ev. \<not> is_Download ev) xs"
    using r1 by auto
  show ?thesis
  proof (cases err1)
    case (Some e)
    then have "trace (snd (Exec E p s)) = trace s @ ?n # xs @ []"
      using r1 xs(1) by (simp add: Exec_unfold)
    moreover have "list_all (\<lambda>ev. \<not> is_Upload ev) []"
      by simp
    ultimately show ?thesis
      using xs(2) by blast
  next
    case None
    let ?r2 = "if Restore p then processRestore E p ?c s1 else (None, s1)"
    have "\<exists>ys. trace (snd ?r2) = trace s1 @ ys \<and> list_all (\<lambda>ev. \<not> is_Upload ev) ys"
      using processRestore_trace [of E p ?c s1] by (cases "Restore p") simp_all
    then obtain ys where ys: "trace (snd ?r2) = trace s1 @ ys" "list_all (\<lambda>ev. \<not> is_Upload ev) ys"
      by blast
    have "snd (Exec E p s) = snd ?r2"
      using r1 None by (simp add: Exec_unfold split: prod.splits option.splits)
    then have "trace (snd (Exec E p s)) = trace s @ ?n # xs @ ys"
      using ys(1) xs(1) by simp
    then show ?thesis
      using xs(2) ys(2) by blast
  qed
qed

lemma Exec_first_event:
  "\<exists>evs. new_events s (snd (Exec E p s)) =
     NewS3_called (Bucket p) (ACL p) (Encryption p) (Exec_conf p) # evs"
  using Exec_trace [of E p s] by (auto simp: new_events_def)

lemma Exec_error:
  "fst (Exec E p s) = Some err \<Longrightarrow>
   (\<exists>e. err = Wrap (Wrap e ''could not upload'') ''process rebuild failed'')
   \<or> (\<exists>e. err = Wrap (Wrap e ''could not download'') ''process restore failed'')"
  by (auto simp: Exec_unfold split: if_splits prod.splits option.splits
      dest: processRebuild_error processRestore_error)

lemma strings_HasPrefix_prefix: "strings_HasPrefix str pre = prefix pre str"
proof
  assume "strings_HasPrefix str pre"
  then have "str = pre @ drop (length pre) str"
    by (metis append_take_drop_id strings_HasPrefix_def)
  then show "prefix pre str"
    by (metis prefixI)
next
  assume "prefix pre str"
  then show "strings_HasPrefix str pre"
    by (auto simp: strings_HasPrefix_def prefix_def)
qed

section \<open>The hexadecimal rendering and the remote path are injective\<close>

lemma ldigits_inj: "i < 16 \<Longrightarrow> j < 16 \<Longrightarrow> ldigits ! i = ldigits ! j \<Longrightarrow> i = j"
proof -
  have "distinct ldigits" "length ldigits = 16"
    by (simp_all add: ldigits_def)
  then show "i < 16 \<Longrightarrow> j < 16 \<Longrightarrow> ldigits ! i = ldigits ! j \<Longrightarrow> i = j"
    by (simp add: nth_eq_iff_index_eq)
qed

lemma byte_nibbles:
  fixes c d :: byte
  assumes "unat c div 16 = unat d div 16" and "unat c mod 16 = unat d mod 16"
  shows "c = d"
proof -
  have "unat c = 16 * (unat c div 16) + unat c mod 16"
    by simp
  also have "\<dots> = 16 * (unat d div 16) + unat d mod 16"
    by (simp only: assms)
  also have "\<dots> = unat d"
    by simp
  finally show ?thesis
    by (simp only: word_unat_eq_iff)
qed

lemma nibble_bounds:
  fixes c :: byte
  shows "unat c div 16 < 16" and "unat c mod 16 < 16"
proof -
  have "unat c < 16 * 16"
    using unsigned_less [of c, where ?'a = nat] by simp
  then show "unat c div 16 < 16"
    by (rule less_mult_imp_div_less)
  show "unat c mod 16 < 16"
    by simp
qed

lemma Sprintf_x_Cons:
  "Sprintf_x (c # cs) = ldigits ! (unat c div 16) # ldigits ! (unat c mod 16) # Sprintf_x cs"
  by (simp add: Sprintf_x_def)

lemma Sprintf_x_Nil: "Sprintf_x [] = []"
  by (simp add: Sprintf_x_def)

lemma Sprintf_x_inj: "Sprintf_x a = Sprintf_x b \<Longrightarrow> a = b"
proof (induction a arbitrary: b)
  case Nil
  then show ?case
    by (cases b) (simp_all add: Sprintf_x_Nil Sprintf_x_Cons)
next
  case (Cons c cs)
  then obtain d ds where b: "b = d # ds"
    by (cases b) (simp_all add: Sprintf_x_Nil Sprintf_x_Cons)
  from Cons.prems have hi: "ldigits ! (unat c div 16) = ldigits ! (unat d div 16)"
    and lo: "ldigits ! (unat c mod 16) = ldigits ! (unat d mod 16)"
    and tl: "Sprintf_x cs = Sprintf_x ds"
    by (simp_all add: b Sprintf_x_Cons)
  have "c = d"
    using ldigits_inj [OF nibble_bounds(1) nibble_bounds(1) hi]
      ldigits_inj [OF nibble_bounds(2) nibble_bounds(2) lo]
    by (rule byte_nibbles)
  with Cons.IH [OF tl] b show ?case by simp
qed

lemma unat_of_char: "unat (of_char c :: byte) = of_char c"
proof -
  have "(of_char c :: byte) = of_nat (of_char c)"
    by (simp only: of_nat_of_char)
  then have "unat (of_char c :: byte) = (of_char c :: nat) mod 2 ^ 8"
    by (simp add: unat_of_nat)
  then show ?thesis
    by (simp add: of_char_mod_256)
qed

lemma bytes_of_inj: "bytes_of a = bytes_of b \<Longrightarrow> a = b"
proof -
  have "inj (of_char :: char \<Rightarrow> byte)"
  proof (rule injI)
    fix x y :: char
    assume "(of_char x :: byte) = of_char y"
    then have "unat (of_char x :: byte) = unat (of_char y :: byte)"
      by simp
    then have "(of_char x :: nat) = of_char y"
      by (simp only: unat_of_char)
    then show "x = y"
      by simp
  qed
  then show "bytes_of a = bytes_of b \<Longrightarrow> a = b"
    by (simp add: bytes_of_def inj_map_eq_map)
qed

lemma bytes_of_append: "bytes_of (a @ b) = bytes_of a @ bytes_of b"
  by (simp add: bytes_of_def)

lemma hash_eq_iff:
  "(hash m1 b1 = hash m2 b2) = (md5 (bytes_of (m1 @ b1)) = md5 (bytes_of (m2 @ b2)))"
  using Sprintf_x_inj by (auto simp: hash_eq bytes_of_append)

lemma plain_name_hash: "plain_name (hash mount branch)"
proof -
  have "length (hash mount branch) = 32"
    by (simp add: hash_eq length_Sprintf_x length_md5)
  then have "hash mount branch \<noteq> []"
    by auto
  moreover have "Separator \<notin> set ldigits" "CHR ''.'' \<notin> set ldigits"
    by (simp_all add: ldigits_def Separator_def)
  then have "list_all (\<lambda>c. c \<noteq> Separator \<and> c \<noteq> CHR ''.'') (hash mount branch)"
    using set_Sprintf_x [of "md5 (bytes_of mount @ bytes_of branch)"]
    by (auto simp: hash_eq list_all_iff)
  ultimately show ?thesis
    by (simp add: plain_name_def)
qed

lemma remote_path_join_dir: "filepath_Join [repo, hash mount branch] = join_dir repo @ hash mount branch"
  by (rule filepath_Join_name) (rule plain_name_hash)

lemma remote_path_eq_iff:
  "(filepath_Join [repo, hash m b1] = filepath_Join [repo, hash m b2])
     = (md5 (bytes_of (m @ b1)) = md5 (bytes_of (m @ b2)))"
  by (simp only: remote_path_join_dir same_append_eq hash_eq_iff)

section \<open>Evaluations\<close>

text \<open>
  The key of the mount \<open>./dist\<close> on the branch \<open>main\<close> is the MD5 digest of
  \<open>./distmain\<close>, and both colliding inputs have the digest that their authors report.
\<close>

lemma hash_example: "hash ''./dist'' ''main'' = ''8bae159b2cd728825cfc02d7b2235987''"
  by code_simp

lemma join_dir_example: "join_dir ''myrepo'' = ''myrepo/''"
  by code_simp

lemma hash_collision1: "hash collision_mount collision_branch1 = ''79054025255fb1a26e4bc422aef54eb4''"
  by code_simp

lemma hash_collision2: "hash collision_mount collision_branch2 = ''79054025255fb1a26e4bc422aef54eb4''"
  by code_simp

lemma collision_branches: "collision_branch1 \<noteq> collision_branch2"
  by (simp add: collision_branch1_def collision_branch2_def)

section \<open>Properties of the cache key\<close>

text \<open>
  C1: for every mount and branch, \<open>hash\<close> returns the lower-case hexadecimal rendering
  of the MD5 digest of the bytes of the mount followed by the bytes of the branch, with no
  separator. The only failure of the library (the panic of \<^verbatim>\<open>checkSum\<close>) cannot happen,
  the result always has 32 characters, and all of them are digits \<open>0\<close> to \<open>9\<close> or letters
  \<open>a\<close> to \<open>f\<close>. Being a function of its two arguments, \<open>hash\<close> is deterministic and has
  no effect.
\<close>

theorem hash_md5_hex:
  "hash mount branch = Sprintf_x (md5 (bytes_of mount @ bytes_of branch))
   \<and> \<not> checkSum_panics (foldl io_WriteString md5_New [mount, branch])
   \<and> length (hash mount branch) = 32
   \<and> set (hash mount branch) \<subseteq> set ''0123456789abcdef''"
proof -
  have "length (hash mount branch) = 32"
    by (simp add: hash_eq length_Sprintf_x length_md5)
  moreover have "set (hash mount branch) \<subseteq> set ''0123456789abcdef''"
    using set_Sprintf_x [of "md5 (bytes_of mount @ bytes_of branch)"]
    by (simp only: hash_eq ldigits_def)
  moreover have "\<not> checkSum_panics (foldl io_WriteString md5_New [mount, branch])"
    by (simp only: writes_absorbed checkSum_panics_absorbed not_False_eq_True)
  ultimately show ?thesis
    by (simp only: hash_eq simp_thms)
qed

theorem hash_md5_hex_witness:
  "hash ''./dist'' ''main'' = Sprintf_x (md5 (bytes_of ''./dist'' @ bytes_of ''main''))
   \<and> Sprintf_x (md5 (bytes_of ''./dist'' @ bytes_of ''main'')) = ''8bae159b2cd728825cfc02d7b2235987''
   \<and> length (hash ''./dist'' ''main'') = 32"
proof -
  note t = hash_md5_hex [of "''./dist''" "''main''"]
  from t have a: "hash ''./dist'' ''main'' = Sprintf_x (md5 (bytes_of ''./dist'' @ bytes_of ''main''))"
    by (rule conjunct1)
  from t have l: "length (hash ''./dist'' ''main'') = 32"
    by blast
  from a hash_example
  have "Sprintf_x (md5 (bytes_of ''./dist'' @ bytes_of ''main'')) = ''8bae159b2cd728825cfc02d7b2235987''"
    by (rule trans [OF sym])
  with a l show ?thesis
    by blast
qed

text \<open>
  C2: two pairs of mount and branch get the same key exactly when the MD5 digests of their
  concatenations agree. Pairs with the same concatenation therefore always share a key.
  Pairs that differ only in the branch, or only in the mount, have different
  concatenations, so for them a shared key is a collision of MD5 itself.
\<close>

theorem hash_collisions:
  "(hash m1 b1 = hash m2 b2) = (md5 (bytes_of (m1 @ b1)) = md5 (bytes_of (m2 @ b2)))
   \<and> (m1 @ b1 = m2 @ b2 \<longrightarrow> hash m1 b1 = hash m2 b2)
   \<and> (m1 = m2 \<and> b1 \<noteq> b2 \<longrightarrow> bytes_of (m1 @ b1) \<noteq> bytes_of (m2 @ b2))
   \<and> (b1 = b2 \<and> m1 \<noteq> m2 \<longrightarrow> bytes_of (m1 @ b1) \<noteq> bytes_of (m2 @ b2))"
proof -
  have "m1 @ b1 = m2 @ b2 \<longrightarrow> hash m1 b1 = hash m2 b2"
    by (simp add: hash_eq_iff)
  moreover have "m1 = m2 \<and> b1 \<noteq> b2 \<longrightarrow> bytes_of (m1 @ b1) \<noteq> bytes_of (m2 @ b2)"
    using bytes_of_inj [of "m1 @ b1" "m2 @ b2"] by auto
  moreover have "b1 = b2 \<and> m1 \<noteq> m2 \<longrightarrow> bytes_of (m1 @ b1) \<noteq> bytes_of (m2 @ b2)"
    using bytes_of_inj [of "m1 @ b1" "m2 @ b2"] by auto
  ultimately show ?thesis
    using hash_eq_iff [of m1 b1 m2 b2] by blast
qed

theorem hash_collisions_witness:
  "hash ''./dist'' ''ma'' = hash ''./distm'' ''a''
   \<and> bytes_of (''./dist'' @ ''main'') \<noteq> bytes_of (''./dist'' @ ''dev'')
   \<and> bytes_of (''./dist'' @ ''main'') \<noteq> bytes_of (''./vendor'' @ ''main'')"
proof -
  have "hash ''./dist'' ''ma'' = hash ''./distm'' ''a''"
    using hash_collisions [of "''./dist''" "''ma''" "''./distm''" "''a''"] by simp
  moreover have "bytes_of (''./dist'' @ ''main'') \<noteq> bytes_of (''./dist'' @ ''dev'')"
    using hash_collisions [of "''./dist''" "''main''" "''./dist''" "''dev''"] by simp
  moreover have "bytes_of (''./dist'' @ ''main'') \<noteq> bytes_of (''./vendor'' @ ''main'')"
    using hash_collisions [of "''./dist''" "''main''" "''./vendor''" "''main''"] by simp
  ultimately show ?thesis
    by blast
qed

text \<open>
  The statement that any two different pairs get different keys unless MD5 collides fails:
  moving the boundary between mount and branch leaves the digest input as it is.
\<close>

theorem hash_shifted_boundary_collision:
  "''cache'' \<noteq> ''cachev'' \<and> ''v2'' \<noteq> ''2'' \<and> ''cache'' @ ''v2'' = ''cachev'' @ ''2''
   \<and> hash ''cache'' ''v2'' = hash ''cachev'' ''2''"
  by (simp add: hash_eq bytes_of_def)

section \<open>Properties of the remote path\<close>

text \<open>
  C4: the remote path of a mount is \<^verbatim>\<open>filepath.Join\<close> of the repository name and the key of
  the mount and the branch. The uploads of \<open>processRebuild\<close> are those of an initial part
  of the mount list, each to the remote path of its mount; the downloads of
  \<open>processRestore\<close> are those of an initial part of the mount list, each from the remote
  path of its mount, so both passes address the same remote object for a mount. For a
  fixed mount, two branches lead to the same remote path exactly when the MD5 digests of
  mount followed by branch agree.
\<close>

theorem remote_path_per_mount:
  "remote_path p mount = filepath_Join [Repo p, hash mount (Branch p)]
   \<and> (\<exists>k\<le>length (Mount p).
        filter is_Upload (new_events s (snd (processRebuild E p c s))) =
          map (\<lambda>m. Upload_called m (remote_path p m)) (take k (Mount p)))
   \<and> (\<exists>k\<le>length (Mount p).
        filter is_Download (new_events s (snd (processRestore E p c s))) =
          map (\<lambda>m. Download_called (remote_path p m) m) (take k (Mount p)))
   \<and> (remote_path (p\<lparr>Branch := b1\<rparr>) mount = remote_path (p\<lparr>Branch := b2\<rparr>) mount)
       = (md5 (bytes_of (mount @ b1)) = md5 (bytes_of (mount @ b2)))"
proof -
  have "(remote_path (p\<lparr>Branch := b1\<rparr>) mount = remote_path (p\<lparr>Branch := b2\<rparr>) mount)
       = (md5 (bytes_of (mount @ b1)) = md5 (bytes_of (mount @ b2)))"
    by (simp add: remote_path_def remote_path_eq_iff)
  then show ?thesis
    using processRebuild_uploads [of p s E c] processRestore_downloads [of p s E c]
    by (simp add: remote_path_def)
qed

theorem remote_path_per_mount_witness:
  "remote_path example ''./dist'' = ''myrepo/8bae159b2cd728825cfc02d7b2235987''
   \<and> filter is_Upload (new_events \<lparr>world = [], trace = []\<rparr>
        (snd (processRebuild scripted (example\<lparr>Mount := [''./dist'']\<rparr>) () \<lparr>world = [], trace = []\<rparr>)))
      = [Upload_called ''./dist'' ''myrepo/8bae159b2cd728825cfc02d7b2235987'']
   \<and> filter is_Download (new_events \<lparr>world = [], trace = []\<rparr>
        (snd (processRestore scripted (example\<lparr>Mount := [''./dist'']\<rparr>) () \<lparr>world = [], trace = []\<rparr>)))
      = [Download_called ''myrepo/8bae159b2cd728825cfc02d7b2235987'' ''./dist'']"
proof -
  let ?p = "example\<lparr>Mount := [''./dist'']\<rparr>"
  let ?s = "\<lparr>world = [] :: error option list, trace = []\<rparr>"
  note t = remote_path_per_mount [of ?p "''./dist''" ?s scripted "()"]
  from t have "remote_path ?p ''./dist'' = filepath_Join [Repo ?p, hash ''./dist'' (Branch ?p)]"
    by (rule conjunct1)
  moreover have "Repo ?p = ''myrepo''" "Branch ?p = ''main''"
    by (simp_all add: example_def)
  moreover have "filepath_Join [''myrepo'', hash ''./dist'' ''main''] = ''myrepo/'' @ hash ''./dist'' ''main''"
    by (simp only: remote_path_join_dir join_dir_example)
  ultimately have path: "remote_path ?p ''./dist'' = ''myrepo/8bae159b2cd728825cfc02d7b2235987''"
    by (simp add: hash_example)
  have same: "remote_path example ''./dist'' = remote_path ?p ''./dist''"
    by (simp add: remote_path_def)
  have up: "filter is_Upload (new_events ?s (snd (processRebuild scripted ?p () ?s)))
      = [Upload_called ''./dist'' (remote_path ?p ''./dist'')]"
    by (simp add: processRebuild_def scripted_def next_outcome_def call_Upload_def log_Printf_def
        record_event_def Let_def remote_path_def new_events_def)
  have down: "filter is_Download (new_events ?s (snd (processRestore scripted ?p () ?s)))
      = [Download_called (remote_path ?p ''./dist'') ''./dist'']"
    by (simp add: processRestore_def scripted_def next_outcome_def call_Download_def log_Printf_def
        record_event_def Let_def remote_path_def new_events_def)
  show ?thesis
    by (simp only: same up down path simp_thms)
qed

text \<open>
  The statement that a change of the branch always changes the remote path fails on two
  branches that collide under MD5.
\<close>

theorem branch_change_same_remote_path:
  "collision_branch1 \<noteq> collision_branch2
   \<and> remote_path (example\<lparr>Branch := collision_branch1\<rparr>) collision_mount
     = remote_path (example\<lparr>Branch := collision_branch2\<rparr>) collision_mount"
  using collision_branches by (simp add: remote_path_def hash_collision1 hash_collision2)

section \<open>Properties of the rebuild and restore passes\<close>

text \<open>
  C3: \<open>processRebuild\<close> takes the mounts in the order of the list. If the uploads of the
  mounts \<open>pre\<close> succeed and the upload of the next mount fails with \<open>e\<close>, the result is
  \<open>e\<close> wrapped with the message \<open>could not upload\<close>. The world is the one that the failing
  upload left, and the trace holds the log line and the upload of each mount of \<open>pre\<close>
  and of the failing mount and nothing else: no later mount is attempted, and nothing is
  uploaded again or deleted.
\<close>

theorem rebuild_fail_fast:
  assumes "Mount p = pre @ mount # post"
    and "rebuild_loop E p c pre s = (None, s1)"
    and "cache_Upload E c mount (remote_path p mount) (world s1) = (Some e, w)"
  shows "processRebuild E p c s =
           (Some (Wrap e ''could not upload''),
            \<lparr>world = w, trace = trace s @ concat (map (rebuild_events p) (pre @ [mount]))\<rparr>)"
proof -
  have "rebuild_loop E p c (pre @ mount # post) s = rebuild_loop E p c (mount # post) s1"
    using assms(2) by (simp add: rebuild_loop_append)
  also have "\<dots> = (Some (Wrap e ''could not upload''),
            \<lparr>world = w, trace = trace s1 @ rebuild_events p mount\<rparr>)"
    using assms(3) by (rule rebuild_loop_Cons_fail)
  finally show ?thesis
    using rebuild_loop_trace_ok [OF assms(2)] by (simp add: processRebuild_def assms(1))
qed

theorem rebuild_fail_fast_witness:
  "processRebuild scripted example ()
     \<lparr>world = [None, Some (Failure TransportError)], trace = []\<rparr> =
   (Some (Wrap (Failure TransportError) ''could not upload''),
    \<lparr>world = [],
     trace = [Log (Archiving ''./dist'' (remote_path example ''./dist'')),
              Upload_called ''./dist'' (remote_path example ''./dist''),
              Log (Archiving ''./node_modules'' (remote_path example ''./node_modules'')),
              Upload_called ''./node_modules'' (remote_path example ''./node_modules'')]\<rparr>)"
proof -
  have m: "Mount example = [''./dist''] @ ''./node_modules'' # [''./vendor'']"
    by (simp add: example_def)
  have pre: "rebuild_loop scripted example () [''./dist'']
               \<lparr>world = [None, Some (Failure TransportError)], trace = []\<rparr> =
             (None, \<lparr>world = [Some (Failure TransportError)],
                     trace = rebuild_events example ''./dist''\<rparr>)"
    by (simp add: scripted_def next_outcome_def call_Upload_def log_Printf_def record_event_def
        Let_def remote_path_def rebuild_events_def)
  have up: "cache_Upload scripted () ''./node_modules'' (remote_path example ''./node_modules'')
              (world \<lparr>world = [Some (Failure TransportError)],
                      trace = rebuild_events example ''./dist''\<rparr>) =
            (Some (Failure TransportError), [])"
    by (simp add: scripted_def next_outcome_def)
  show ?thesis
    using rebuild_fail_fast [OF m pre up] by (simp add: rebuild_events_def)
qed


text \<open>
  C5: in \<open>processRestore\<close> a download that fails with any error \<open>e\<close>, the kind
  \<open>NotFound\<close> included, ends the pass: the result is \<open>e\<close> wrapped with the message
  \<open>could not download\<close>, the world is the one that the failing download left, and the
  trace holds the downloads up to the failing one only. No branch of the loop continues
  after a missing remote object.
\<close>

theorem restore_not_found_aborts:
  assumes "Mount p = pre @ mount # post"
    and "restore_loop E p c pre s = (None, s1)"
    and "cache_Download E c (remote_path p mount) mount (world s1) = (Some e, w)"
  shows "processRestore E p c s =
           (Some (Wrap e ''could not download''),
            \<lparr>world = w, trace = trace s @ concat (map (restore_events p) (pre @ [mount]))\<rparr>)"
proof -
  have "restore_loop E p c (pre @ mount # post) s = restore_loop E p c (mount # post) s1"
    using assms(2) by (simp add: restore_loop_append)
  also have "\<dots> = (Some (Wrap e ''could not download''),
            \<lparr>world = w, trace = trace s1 @ restore_events p mount\<rparr>)"
    using assms(3) by (rule restore_loop_Cons_fail)
  finally show ?thesis
    using restore_loop_trace_ok [OF assms(2)] by (simp add: processRestore_def assms(1))
qed

theorem restore_not_found_aborts_witness:
  "processRestore scripted example ()
     \<lparr>world = [None, Some (Failure NotFound)], trace = []\<rparr> =
   (Some (Wrap (Failure NotFound) ''could not download''),
    \<lparr>world = [],
     trace = [Log (Restoring ''./dist'' (remote_path example ''./dist'')),
              Download_called (remote_path example ''./dist'') ''./dist'',
              Log (Restoring ''./node_modules'' (remote_path example ''./node_modules'')),
              Download_called (remote_path example ''./node_modules'') ''./node_modules'']\<rparr>)"
proof -
  have m: "Mount example = [''./dist''] @ ''./node_modules'' # [''./vendor'']"
    by (simp add: example_def)
  have pre: "restore_loop scripted example () [''./dist'']
               \<lparr>world = [None, Some (Failure NotFound)], trace = []\<rparr> =
             (None, \<lparr>world = [Some (Failure NotFound)],
                     trace = restore_events example ''./dist''\<rparr>)"
    by (simp add: scripted_def next_outcome_def call_Download_def log_Printf_def record_event_def
        Let_def remote_path_def restore_events_def)
  have dl: "cache_Download scripted () (remote_path example ''./node_modules'') ''./node_modules''
              (world \<lparr>world = [Some (Failure NotFound)],
                      trace = restore_events example ''./dist''\<rparr>) =
            (Some (Failure NotFound), [])"
    by (simp add: scripted_def next_outcome_def)
  show ?thesis
    using restore_not_found_aborts [OF m pre dl] by (simp add: restore_events_def)
qed

text \<open>
  C10: with an empty mount list, \<open>processRebuild\<close> and \<open>processRestore\<close> each return nil
  and add only their summary line to the trace, so they make no upload and no download and
  leave the world as it is; \<open>Exec\<close> then returns nil for every combination of the two
  flags.
\<close>

theorem empty_mount_list:
  assumes "Mount p = []"
  shows "processRebuild E p c s = (None, s\<lparr>trace := trace s @ [Log Cache_built]\<rparr>)
       \<and> processRestore E p c s = (None, s\<lparr>trace := trace s @ [Log Cache_restored]\<rparr>)
       \<and> Exec E p s =
           (None, s\<lparr>trace := trace s @
              NewS3_called (Bucket p) (ACL p) (Encryption p) (Exec_conf p) #
              (if Rebuild p then [Log Cache_built] else []) @
              (if Restore p then [Log Cache_restored] else [])\<rparr>)"
  using assms
  by (simp add: Exec_unfold processRebuild_Nil processRestore_Nil record_event_def)

theorem empty_mount_list_witness:
  "Exec scripted (example\<lparr>Mount := []\<rparr>) \<lparr>world = [Some (Failure TransportError)], trace = []\<rparr> =
   (None, \<lparr>world = [Some (Failure TransportError)],
           trace = [NewS3_called ''cache'' ''private'' [] (Exec_conf (example\<lparr>Mount := []\<rparr>)),
                    Log Cache_built, Log Cache_restored]\<rparr>)"
  using empty_mount_list [of "example\<lparr>Mount := []\<rparr>" scripted "()"
      "\<lparr>world = [Some (Failure TransportError)], trace = []\<rparr>"]
  by (simp add: example_def)

section \<open>Properties of the entry point\<close>

text \<open>
  C6: if neither the rebuild flag nor the restore flag is set, \<open>Exec\<close> returns nil. It
  constructs the provider and does nothing else: the world is unchanged, and the trace
  gains the construction only, no upload, no download and no log line.
\<close>

theorem Exec_no_flags:
  assumes "\<not> Rebuild p" and "\<not> Restore p"
  shows "Exec E p s =
           (None, s\<lparr>trace := trace s @ [NewS3_called (Bucket p) (ACL p) (Encryption p) (Exec_conf p)]\<rparr>)
         \<and> world (snd (Exec E p s)) = world s
         \<and> list_all (\<lambda>ev. \<not> is_Upload ev \<and> \<not> is_Download ev) (new_events s (snd (Exec E p s)))"
  using assms by (simp add: Exec_unfold record_event_def new_events_def)

theorem Exec_no_flags_witness:
  "Exec scripted (example\<lparr>Rebuild := False, Restore := False\<rparr>)
     \<lparr>world = [Some (Failure TransportError)], trace = []\<rparr> =
   (None, \<lparr>world = [Some (Failure TransportError)],
           trace = [NewS3_called ''cache'' ''private'' []
                      (Exec_conf (example\<lparr>Rebuild := False, Restore := False\<rparr>))]\<rparr>)"
  using Exec_no_flags [of "example\<lparr>Rebuild := False, Restore := False\<rparr>" scripted
      "\<lparr>world = [Some (Failure TransportError)], trace = []\<rparr>"]
  by (simp add: example_def)

text \<open>
  C7: with both flags set, \<open>Exec\<close> first runs \<open>processRebuild\<close> on the state after the
  construction of the provider. If that pass fails with \<open>e\<close>, \<open>Exec\<close> returns \<open>e\<close> wrapped
  with \<open>process rebuild failed\<close> in the state where the pass stopped, which holds no
  download. Otherwise the trace holds the uploads of all mounts and the summary line
  before \<open>processRestore\<close> starts, and a failure \<open>e\<close> of that pass is returned wrapped with
  \<open>process restore failed\<close>. In every run, no upload comes after a download.
\<close>

theorem Exec_rebuild_then_restore:
  assumes "Rebuild p" and "Restore p"
    and "c = provider_NewS3 E (Bucket p) (ACL p) (Encryption p) (Exec_conf p)"
    and "s0 = record_event (NewS3_called (Bucket p) (ACL p) (Encryption p) (Exec_conf p)) s"
  shows "(case processRebuild E p c s0 of
            (Some e, s1) \<Rightarrow>
              Exec E p s = (Some (Wrap e ''process rebuild failed''), s1)
              \<and> list_all (\<lambda>ev. \<not> is_Download ev) (new_events s s1)
          | (None, s1) \<Rightarrow>
              trace s1 = trace s0 @ concat (map (rebuild_events p) (Mount p)) @ [Log Cache_built]
              \<and> (case processRestore E p c s1 of
                    (Some e, s2) \<Rightarrow> Exec E p s = (Some (Wrap e ''process restore failed''), s2)
                  | (None, s2) \<Rightarrow> Exec E p s = (None, s2)))
         \<and> uploads_precede_downloads (new_events s (snd (Exec E p s)))"
proof -
  obtain r1 s1 where r1: "processRebuild E p c s0 = (r1, s1)"
    by (cases "processRebuild E p c s0")
  have order: "uploads_precede_downloads (new_events s (snd (Exec E p s)))"
  proof -
    obtain xs ys where t: "trace (snd (Exec E p s)) =
        trace s @ NewS3_called (Bucket p) (ACL p) (Encryption p) (Exec_conf p) # xs @ ys"
      and xs: "list_all (\<lambda>ev. \<not> is_Download ev) xs" and ys: "list_all (\<lambda>ev. \<not> is_Upload ev) ys"
      using Exec_trace [of E p s] by blast
    show ?thesis
      using uploads_precede_downloads_append [OF xs ys] by (simp add: new_events_def t)
  qed
  show ?thesis
  proof (cases r1)
    case (Some e)
    have "list_all (\<lambda>ev. \<not> is_Download ev) (new_events s0 s1)"
      using processRebuild_new_events [of s0 E p c] r1 by simp
    then have "list_all (\<lambda>ev. \<not> is_Download ev) (new_events s s1)"
      using processRebuild_trace [of E p c s0] r1 by (auto simp: new_events_def assms(4))
    moreover have "Exec E p s = (Some (Wrap e ''process rebuild failed''), s1)"
      using r1 Some assms by (simp add: Exec_unfold)
    ultimately show ?thesis
      using r1 Some order by simp
  next
    case None
    have "trace s1 = trace s0 @ concat (map (rebuild_events p) (Mount p)) @ [Log Cache_built]"
      using r1 None by (simp add: processRebuild_ok_trace)
    moreover have "case processRestore E p c s1 of
                    (Some e, s2) \<Rightarrow> Exec E p s = (Some (Wrap e ''process restore failed''), s2)
                  | (None, s2) \<Rightarrow> Exec E p s = (None, s2)"
      using r1 None assms by (simp add: Exec_unfold split: prod.splits option.splits)
    ultimately show ?thesis
      using r1 None order by simp
  qed
qed

theorem Exec_rebuild_then_restore_witness:
  "fst (Exec scripted example \<lparr>world = [None, None, None, None, Some (Failure NotFound)], trace = []\<rparr>)
     = Some (Wrap (Wrap (Failure NotFound) ''could not download'') ''process restore failed'')
   \<and> map is_Upload (new_events \<lparr>world = [None, None, None, None, Some (Failure NotFound)], trace = []\<rparr>
        (snd (Exec scripted example \<lparr>world = [None, None, None, None, Some (Failure NotFound)], trace = []\<rparr>)))
     = [False, False, True, False, True, False, True, False, False, False, False, False]
   \<and> map is_Download (new_events \<lparr>world = [None, None, None, None, Some (Failure NotFound)], trace = []\<rparr>
        (snd (Exec scripted example \<lparr>world = [None, None, None, None, Some (Failure NotFound)], trace = []\<rparr>)))
     = [False, False, False, False, False, False, False, False, False, True, False, True]"
proof -
  let ?s = "\<lparr>world = [None, None, None, None, Some (Failure NotFound)], trace = []\<rparr>"
  let ?n = "NewS3_called (Bucket example) (ACL example) (Encryption example) (Exec_conf example)"
  let ?s1 = "\<lparr>world = [None, Some (Failure NotFound)],
              trace = ?n # concat (map (rebuild_events example) (Mount example)) @ [Log Cache_built]\<rparr>"
  let ?s2 = "\<lparr>world = [],
              trace = trace ?s1 @ concat (map (restore_events example) [''./dist'', ''./node_modules''])\<rparr>"
  have flags: "Rebuild example" "Restore example"
    by (simp_all add: example_def)
  have c: "() = provider_NewS3 scripted (Bucket example) (ACL example) (Encryption example) (Exec_conf example)"
    by simp
  have mounts: "Mount example = [''./dist'', ''./node_modules'', ''./vendor'']"
    by (simp add: example_def)
  have rebuild: "processRebuild scripted example () (record_event ?n ?s) = (None, ?s1)"
    by (simp add: processRebuild_def mounts scripted_def next_outcome_def call_Upload_def log_Printf_def
        record_event_def Let_def remote_path_def rebuild_events_def)
  have restore: "processRestore scripted example () ?s1 = (Some (Wrap (Failure NotFound) ''could not download''), ?s2)"
    by (simp add: processRestore_def mounts scripted_def next_outcome_def call_Download_def log_Printf_def
        record_event_def Let_def remote_path_def restore_events_def rebuild_events_def)
  have "Exec scripted example ?s =
          (Some (Wrap (Wrap (Failure NotFound) ''could not download'') ''process restore failed''), ?s2)"
    using Exec_rebuild_then_restore [OF flags c refl, of ?s] by (simp add: rebuild restore)
  then show ?thesis
    by (simp add: new_events_def mounts rebuild_events_def restore_events_def)
qed

text \<open>
  C8: the configuration that \<open>Exec\<close> passes to the constructor of the provider holds
  static credentials (key, secret and an empty token) exactly when the key and the secret
  are both non-empty; when one of them or both are empty the credentials stay unset, which
  leaves their resolution to the SDK. The provider is constructed with this configuration
  in every run, and every error that \<open>Exec\<close> returns is the wrapped error of an upload or
  a download, so the construction itself never fails a run.
\<close>

theorem Exec_credentials:
  "Config_Credentials (Exec_conf p) =
     (if Key p \<noteq> [] \<and> Secret p \<noteq> [] then Some (NewStaticCredentials (Key p) (Secret p) [])
      else None)
   \<and> (\<exists>evs. new_events s (snd (Exec E p s)) =
         NewS3_called (Bucket p) (ACL p) (Encryption p) (Exec_conf p) # evs)
   \<and> (case fst (Exec E p s) of
         None \<Rightarrow> True
       | Some err \<Rightarrow>
           (\<exists>e. err = Wrap (Wrap e ''could not upload'') ''process rebuild failed'')
           \<or> (\<exists>e. err = Wrap (Wrap e ''could not download'') ''process restore failed''))"
proof -
  have "Config_Credentials (Exec_conf p) =
     (if Key p \<noteq> [] \<and> Secret p \<noteq> [] then Some (NewStaticCredentials (Key p) (Secret p) [])
      else None)"
    by (simp add: Exec_conf_def Let_def)
  moreover note Exec_first_event [of s E p]
  moreover have "case fst (Exec E p s) of
         None \<Rightarrow> True
       | Some err \<Rightarrow>
           (\<exists>e. err = Wrap (Wrap e ''could not upload'') ''process rebuild failed'')
           \<or> (\<exists>e. err = Wrap (Wrap e ''could not download'') ''process restore failed'')"
    using Exec_error [of E p s] by (cases "fst (Exec E p s)") simp_all
  ultimately show ?thesis
    by blast
qed

theorem Exec_credentials_witness:
  "Config_Credentials (Exec_conf (example\<lparr>Key := ''AKIDEXAMPLE'', Secret := ''s3cr3t''\<rparr>)) =
     Some (NewStaticCredentials ''AKIDEXAMPLE'' ''s3cr3t'' [])
   \<and> Config_Credentials (Exec_conf (example\<lparr>Key := ''AKIDEXAMPLE''\<rparr>)) = None
   \<and> Config_Credentials (Exec_conf (example\<lparr>Secret := ''s3cr3t''\<rparr>)) = None
   \<and> Config_Credentials (Exec_conf example) = None"
proof -
  let ?s = "\<lparr>world = [] :: error option list, trace = []\<rparr>"
  note both = Exec_credentials [of "example\<lparr>Key := ''AKIDEXAMPLE'', Secret := ''s3cr3t''\<rparr>" ?s scripted,
      THEN conjunct1]
  note key = Exec_credentials [of "example\<lparr>Key := ''AKIDEXAMPLE''\<rparr>" ?s scripted, THEN conjunct1]
  note secret = Exec_credentials [of "example\<lparr>Secret := ''s3cr3t''\<rparr>" ?s scripted, THEN conjunct1]
  note none = Exec_credentials [of example ?s scripted, THEN conjunct1]
  have "Key example = []" "Secret example = []"
    by (simp_all add: example_def)
  then show ?thesis
    by (simp add: both key secret none)
qed

text \<open>
  C9: in the configuration that \<open>Exec\<close> passes to the constructor of the provider,
  \<open>DisableSSL\<close> is false exactly when the endpoint starts with \<open>https://\<close> and true for
  every other endpoint, the empty one included.
\<close>

theorem Exec_transport_security:
  "(Config_DisableSSL (Exec_conf p) = Some False) = prefix ''https://'' (Endpoint p)
   \<and> (Config_DisableSSL (Exec_conf p) = Some True) = (\<not> prefix ''https://'' (Endpoint p))
   \<and> (Endpoint p = [] \<longrightarrow> Config_DisableSSL (Exec_conf p) = Some True)
   \<and> (\<exists>evs. new_events s (snd (Exec E p s)) =
         NewS3_called (Bucket p) (ACL p) (Encryption p) (Exec_conf p) # evs)"
proof -
  have "Config_DisableSSL (Exec_conf p) = Some (\<not> prefix ''https://'' (Endpoint p))"
    by (simp add: Exec_conf_def Let_def strings_HasPrefix_prefix)
  moreover have "\<not> prefix ''https://'' []"
    by simp
  moreover note Exec_first_event [of s E p]
  ultimately show ?thesis
    by auto
qed

theorem Exec_transport_security_witness:
  "Config_DisableSSL (Exec_conf example) = Some False
   \<and> Config_DisableSSL (Exec_conf (example\<lparr>Endpoint := ''http://minio:9000''\<rparr>)) = Some True
   \<and> Config_DisableSSL (Exec_conf (example\<lparr>Endpoint := []\<rparr>)) = Some True"
proof -
  let ?s = "\<lparr>world = [] :: error option list, trace = []\<rparr>"
  note tls = Exec_transport_security [of example ?s scripted, THEN conjunct1]
  note plain = Exec_transport_security [of "example\<lparr>Endpoint := ''http://minio:9000''\<rparr>" ?s scripted,
      THEN conjunct2, THEN conjunct1]
  note empty = Exec_transport_security [of "example\<lparr>Endpoint := []\<rparr>" ?s scripted,
      THEN conjunct2, THEN conjunct2, THEN conjunct1]
  have "Endpoint example = ''https://s3.example.com''"
    by (simp add: example_def)
  then show ?thesis
    by (simp add: tls plain empty)
qed

end
